theory Spec2Isabelle
  imports Complex_Main
begin

section \<open>POSIX path functions used by the data loader\<close>

text \<open>
  The loader code imports \<open>basename\<close>, \<open>dirname\<close>, \<open>extname\<close> and \<open>join\<close> from
  \<open>node:path/posix\<close>. They are modelled on \<open>string\<close> (paths are taken to be ASCII, so
  that the length of a string is its number of characters). Each definition computes the
  result of the library's character loop.
\<close>

text \<open>
  \<open>dirname\<close>: the library scans from the last character down to index 1, skips trailing
  slashes, and cuts the path at the first slash found after a character that is not one.
\<close>

definition dirname :: "string \<Rightarrow> string" where
  "dirname p =
     (if p = [] then ''.''
      else
        let hasRoot = (hd p = CHR ''/'');
            r = dropWhile (\<lambda>c. c \<noteq> CHR ''/'') (dropWhile (\<lambda>c. c = CHR ''/'') (rev (tl p)))
        in if r = [] then (if hasRoot then ''/'' else ''.'')
           else if hasRoot \<and> length r = 1 then ''//''
           else take (length r) p)"

text \<open>The last component of a path, trailing slashes ignored.\<close>

definition basename :: "string \<Rightarrow> string" where
  "basename p = rev (takeWhile (\<lambda>c. c \<noteq> CHR ''/'') (dropWhile (\<lambda>c. c = CHR ''/'') (rev p)))"

text \<open>
  \<open>extname\<close>: from the last dot of the last component to its end; empty when there is no
  dot, when the only dot is the component's first character, and for the component \<open>..\<close>.
\<close>

definition extname :: "string \<Rightarrow> string" where
  "extname p =
     (let b = basename p;
          e = rev (takeWhile (\<lambda>c. c \<noteq> CHR ''.'') (rev b))
      in if CHR ''.'' \<notin> set b then []
         else if Suc (length e) = length b then []
         else if b = ''..'' then []
         else CHR ''.'' # e)"

fun split_slash :: "string \<Rightarrow> string list" where
  "split_slash [] = [[]]"
| "split_slash (c # cs) =
     (if c = CHR ''/'' then [] # split_slash cs
      else (case split_slash cs of [] \<Rightarrow> [[c]] | s # ss \<Rightarrow> (c # s) # ss))"

fun join_slash :: "string list \<Rightarrow> string" where
  "join_slash [] = []"
| "join_slash [s] = s"
| "join_slash (s # t # ss) = s @ CHR ''/'' # join_slash (t # ss)"

text \<open>
  One step of the library's \<open>normalizeString\<close>, on the list of components kept so far:
  empty and \<open>.\<close> components are dropped, \<open>..\<close> removes the previous component unless
  there is none or it is \<open>..\<close> itself, in which case it is kept only for relative paths.
\<close>

definition norm_step :: "bool \<Rightarrow> string list \<Rightarrow> string \<Rightarrow> string list" where
  "norm_step allowAboveRoot res seg =
     (if seg = [] \<or> seg = ''.'' then res
      else if seg = ''..'' then
        (if res \<noteq> [] \<and> last res \<noteq> ''..'' then butlast res
         else if allowAboveRoot then res @ [''..'']
         else res)
      else res @ [seg])"

definition normalizeString :: "string \<Rightarrow> bool \<Rightarrow> string" where
  "normalizeString p allowAboveRoot =
     join_slash (foldl (norm_step allowAboveRoot) [] (split_slash p))"

definition normalize_path :: "string \<Rightarrow> string" where
  "normalize_path p =
     (if p = [] then ''.''
      else
        let isAbsolute = (hd p = CHR ''/'');
            trailingSeparator = (last p = CHR ''/'');
            q = normalizeString p (\<not> isAbsolute)
        in if q = [] then (if isAbsolute then ''/'' else if trailingSeparator then ''./'' else ''.'')
           else (if isAbsolute then ''/'' else []) @ q @ (if trailingSeparator then ''/'' else []))"

definition join :: "string list \<Rightarrow> string" where
  "join args =
     (let joined = join_slash (filter (\<lambda>a. a \<noteq> []) args)
      in if joined = [] then ''.'' else normalize_path joined)"

section \<open>Errors and loaders\<close>

text \<open>
  A JavaScript error is its message and its optional \<open>code\<close> property. Two errors
  have constructors of their own: \<open>ExitError code\<close> is the error with the message
  \<open>loader exited with code ...\<close> (the code is \<open>null\<close>, here \<open>None\<close>, when a signal
  ended the process), and \<open>TypeError\<close> is what reading \<open>mtimeMs\<close> of \<open>undefined\<close>
  throws.
\<close>

datatype error =
    Error string "string option"
  | ExitError "int option"
  | TypeError

definition isEnoent :: "error \<Rightarrow> bool" where
  "isEnoent e = (case e of Error _ (Some c) \<Rightarrow> c = ''ENOENT'' | _ \<Rightarrow> False)"

record LoaderOptions =
  root :: string
  path :: string
  targetPath :: string
  useStale :: bool

datatype loader =
    CommandLoader LoaderOptions string "string list"
  | ZipExtractor LoaderOptions preload string
  | TarExtractor LoaderOptions preload string bool
and preload =
    StaticArchive string
  | LoaderArchive loader

fun options :: "loader \<Rightarrow> LoaderOptions" where
  "options (CommandLoader opts _ _) = opts"
| "options (ZipExtractor opts _ _) = opts"
| "options (TarExtractor opts _ _ _) = opts"

text \<open>\<open>TarGzExtractor\<close> is \<open>TarExtractor\<close> constructed with \<open>gunzip: true\<close>.\<close>

definition TarGzExtractor :: "LoaderOptions \<Rightarrow> preload \<Rightarrow> string \<Rightarrow> loader" where
  "TarGzExtractor opts pre inflatePath = TarExtractor opts pre inflatePath True"

datatype extractor_class = ZipExtractorClass | TarExtractorClass | TarGzExtractorClass

definition extractors :: "(string \<times> extractor_class) list" where
  "extractors =
     [(''.zip'', ZipExtractorClass),
      (''.tar'', TarExtractorClass),
      (''.tar.gz'', TarGzExtractorClass),
      (''.tgz'', TarGzExtractorClass)]"

fun new_Extractor :: "extractor_class \<Rightarrow> preload \<Rightarrow> string \<Rightarrow> LoaderOptions \<Rightarrow> loader" where
  "new_Extractor ZipExtractorClass pre inflatePath opts = ZipExtractor opts pre inflatePath"
| "new_Extractor TarExtractorClass pre inflatePath opts = TarExtractor opts pre inflatePath False"
| "new_Extractor TarGzExtractorClass pre inflatePath opts = TarGzExtractor opts pre inflatePath"

fun inflatePath :: "loader \<Rightarrow> string option" where
  "inflatePath (CommandLoader _ _ _) = None"
| "inflatePath (ZipExtractor _ _ ip) = Some ip"
| "inflatePath (TarExtractor _ _ ip _) = Some ip"

section \<open>LoaderResolver\<close>

text \<open>
  The interpreter table \<open>this.interpreters\<close> is an ordered association list from
  extension to command line, in the iteration order of the JavaScript \<open>Map\<close> that the
  constructor builds; it is a parameter of \<open>find\<close> and \<open>findExact\<close>. With no
  table from the caller it is the default table, in the order in which it is written.
\<close>

definition defaultInterpreters :: "(string \<times> string list) list" where
  "defaultInterpreters =
     [(''.js'', [''node'', ''--no-warnings=ExperimentalWarning'']),
      (''.ts'', [''tsx'']),
      (''.py'', [''python3'']),
      (''.r'', [''Rscript'']),
      (''.R'', [''Rscript'']),
      (''.rs'', [''rust-script'']),
      (''.go'', [''go'', ''run'']),
      (''.java'', [''java'']),
      (''.jl'', [''julia'']),
      (''.php'', [''php'']),
      (''.sh'', [''sh'']),
      (''.exe'', [])]"

text \<open>
  The file system as the resolver sees it: \<open>existsSync\<close> on a joined path and
  \<open>readdirSync\<close>, which lists a directory or throws.
\<close>

record filesystem =
  existsSync :: "string \<Rightarrow> bool"
  readdirSync :: "string \<Rightarrow> error + string list"

text \<open>The first loop of \<open>findExact\<close>; \<open>None\<close> when the loop falls through.\<close>

fun findExact_ext ::
  "filesystem \<Rightarrow> string \<Rightarrow> string \<Rightarrow> bool \<Rightarrow> (string \<times> string list) list \<Rightarrow> loader option option"
where
  "findExact_ext fs rt tp us [] = None"
| "findExact_ext fs rt tp us ((ext, cmd) # rest) =
     (if \<not> existsSync fs (join [rt, tp @ ext]) then findExact_ext fs rt tp us rest
      else if extname tp = [] then Some None
      else
        let p = join [rt, tp @ ext]
        in Some (Some (CommandLoader
              \<lparr>root = rt, path = p, targetPath = tp, useStale = us\<rparr>
              (case cmd of [] \<Rightarrow> p | command # _ \<Rightarrow> command)
              (case cmd of [] \<Rightarrow> [] | _ # args \<Rightarrow> args @ [p]))))"

text \<open>
  The regular expression \<open>/^\[(\w+)\](\.\w+)*$/\<close>: the captured parameter name and the
  last repetition of the second group (none when the name has no extension).
\<close>

definition is_word :: "char \<Rightarrow> bool" where
  "is_word c =
     (let n = (of_char c :: nat)
      in (48 \<le> n \<and> n \<le> 57) \<or> (65 \<le> n \<and> n \<le> 90) \<or> (97 \<le> n \<and> n \<le> 122) \<or> n = 95)"

fun split_dot :: "string \<Rightarrow> string list" where
  "split_dot [] = [[]]"
| "split_dot (c # cs) =
     (if c = CHR ''.'' then [] # split_dot cs
      else (case split_dot cs of [] \<Rightarrow> [[c]] | s # ss \<Rightarrow> (c # s) # ss))"

definition param_match :: "string \<Rightarrow> (string \<times> string option) option" where
  "param_match file =
     (case file of
        [] \<Rightarrow> None
      | c # cs \<Rightarrow>
          if c \<noteq> CHR ''['' then None
          else
            let name = takeWhile is_word cs; rest = dropWhile is_word cs
            in if name = [] then None
               else (case rest of
                       [] \<Rightarrow> None
                     | d # ex \<Rightarrow>
                         if d \<noteq> CHR '']'' then None
                         else (case ex of
                                 [] \<Rightarrow> Some (name, None)
                               | e # gs \<Rightarrow>
                                   if e \<noteq> CHR ''.'' then None
                                   else
                                     let groups = split_dot gs
                                     in if list_all (\<lambda>g. g \<noteq> [] \<and> list_all is_word g) groups
                                        then Some (name, Some (CHR ''.'' # last groups))
                                        else None)))"

text \<open>The loop over the directory entries of the parameterized match.\<close>

fun findExact_scan ::
  "(string \<times> string list) list \<Rightarrow> string \<Rightarrow> string \<Rightarrow> string \<Rightarrow> bool \<Rightarrow> string list \<Rightarrow> loader option"
where
  "findExact_scan interpreters rt parent tp us [] = None"
| "findExact_scan interpreters rt parent tp us (file # files) =
     (case param_match file of
        None \<Rightarrow> findExact_scan interpreters rt parent tp us files
      | Some (name, ext) \<Rightarrow>
          (case (case ext of None \<Rightarrow> None | Some e \<Rightarrow> map_of interpreters e) of
             None \<Rightarrow> findExact_scan interpreters rt parent tp us files
           | Some interpreter \<Rightarrow>
               let p = join [rt, parent, file];
                   args = (case interpreter of [] \<Rightarrow> [] | _ # as \<Rightarrow> as @ [p])
               in Some (CommandLoader
                    \<lparr>root = rt, path = p, targetPath = tp, useStale = us\<rparr>
                    (case interpreter of [] \<Rightarrow> p | command # _ \<Rightarrow> command)
                    (args @ [''--'' @ name, basename tp]))))"

text \<open>
  \<open>findExact\<close>. The body of the second loop ends in an unconditional \<open>return\<close>, so it
  runs once, for the directory of the target path: a listing that throws a not-found error
  is caught and leads to that \<open>return\<close>, any other error is thrown again.
\<close>

definition findExact ::
  "filesystem \<Rightarrow> (string \<times> string list) list \<Rightarrow> string \<Rightarrow> string \<Rightarrow> bool \<Rightarrow> error + loader option"
where
  "findExact fs interpreters rt tp us =
     (case findExact_ext fs rt tp us interpreters of
        Some r \<Rightarrow> Inr r
      | None \<Rightarrow>
          let parent = dirname tp
          in (case readdirSync fs (join [rt, parent]) of
                Inl e \<Rightarrow> if isEnoent e then Inr None else Inl e
              | Inr files \<Rightarrow> Inr (findExact_scan interpreters rt parent tp us files)))"

text \<open>
  The upward walk of \<open>find\<close>: \<open>None\<close> when the walk reaches the source root or finds
  the folder itself, \<open>Some dir\<close> when it breaks out at the first folder with an existing
  parent. The walk ends because \<open>dirname\<close> shortens every path but its fixed points.
\<close>

lemma dirname_unfold:
  assumes "d \<noteq> []"
    and "r = dropWhile (\<lambda>c. c \<noteq> CHR ''/'') (dropWhile (\<lambda>c. c = CHR ''/'') (rev (tl d)))"
  shows "dirname d =
           (if r = [] then (if hd d = CHR ''/'' then ''/'' else ''.'')
            else if hd d = CHR ''/'' \<and> length r = 1 then ''//''
            else take (length r) d)"
  unfolding dirname_def Let_def assms(2) using assms(1) by (simp only: if_False)

lemma dirname_dot: "dirname ''.'' = ''.''"
  by (simp add: dirname_def)

lemma dropWhile_hd_shorter:
  assumes "xs \<noteq> []" "P (hd xs)"
  shows "length (dropWhile P xs) < length xs"
  using assms by (cases xs) (auto simp: le_imp_less_Suc length_dropWhile_le)

lemma dirname_shrinks:
  assumes "dirname d \<noteq> d" and "d \<noteq> []"
  shows "length (dirname d) < length d \<or>
         (length (dirname d) = length d \<and> dirname (dirname d) = dirname d)"
proof -
  define s where "s = dropWhile (\<lambda>c. c = CHR ''/'') (rev (tl d))"
  define r where "r = dropWhile (\<lambda>c. c \<noteq> CHR ''/'') s"
  have dn: "dirname d = (if r = [] then (if hd d = CHR ''/'' then ''/'' else ''.'')
           else if hd d = CHR ''/'' \<and> length r = 1 then ''//''
           else take (length r) d)"
    using assms(2) r_def unfolding s_def by (rule dirname_unfold)
  have len_s: "length s \<le> length (tl d)"
    unfolding s_def by (metis length_dropWhile_le length_rev)
  have len_r: "length r \<le> length s"
    unfolding r_def by (rule length_dropWhile_le)
  have tl_lt: "length (tl d) < length d"
    using assms(2) by (cases d) auto
  show ?thesis
  proof (cases "r = []")
    case True
    show ?thesis
    proof (cases "hd d = CHR ''/''")
      case hr: True
      with True dn have dn': "dirname d = ''/''" by simp
      with assms have "d \<noteq> ''/''" by auto
      with hr assms(2) have "1 < length d" by (cases d) auto
      with dn' show ?thesis by simp
    next
      case False
      with True dn have dn': "dirname d = ''.''" by simp
      with dirname_dot assms(2) show ?thesis by (cases d) auto
    qed
  next
    case False
    then have sne: "s \<noteq> []" by (auto simp: r_def)
    then have "hd s \<noteq> CHR ''/''"
      using hd_dropWhile[of "\<lambda>c. c = CHR ''/''" "rev (tl d)"] unfolding s_def by simp
    then have "length r < length s"
      unfolding r_def using sne by (intro dropWhile_hd_shorter) auto
    with False have "2 \<le> length s" by (cases r) auto
    with len_s tl_lt have d2: "2 < length d" by linarith
    have rd: "length r < length d" using len_r len_s tl_lt by linarith
    show ?thesis
    proof (cases "hd d = CHR ''/'' \<and> length r = 1")
      case True
      with False dn have "dirname d = ''//''" by simp
      with d2 show ?thesis by simp
    next
      case F: False
      with False dn have "dirname d = take (length r) d" by presburger
      with rd show ?thesis by simp
    qed
  qed
qed

lemma dirname_not_Nil: "dirname d \<noteq> []"
proof (cases "d = []")
  case True
  then show ?thesis by (simp add: dirname_def)
next
  case False
  define r where "r = dropWhile (\<lambda>c. c \<noteq> CHR ''/'') (dropWhile (\<lambda>c. c = CHR ''/'') (rev (tl d)))"
  have "length r \<le> length (tl d)"
    unfolding r_def by (metis length_dropWhile_le length_rev order_trans)
  then have "r \<noteq> [] \<Longrightarrow> take (length r) d \<noteq> []"
    using False by (cases d) auto
  then show ?thesis
    unfolding dirname_unfold[OF False r_def] by simp
qed

function find_dir :: "(string \<Rightarrow> bool) \<Rightarrow> string \<Rightarrow> string \<Rightarrow> string option" where
  "find_dir ex rt dir =
     (let parent = dirname dir
      in if parent = dir then None
         else if ex (join [rt, dir]) then None
         else if ex (join [rt, parent]) then Some dir
         else find_dir ex rt parent)"
  by pat_completeness auto
termination
proof (relation "measure (\<lambda>(ex, rt, d).
          if d = [] then 3 else 2 * length d + (if dirname d = d then 0 else 1))")
  show "wf (measure (\<lambda>(ex, rt, d).
          if d = [] then 3 else 2 * length d + (if dirname d = d then 0 else 1)))"
    by simp
next
  fix ex :: "string \<Rightarrow> bool" and rt dir parent :: string
  assume p: "parent = dirname dir" and ne: "parent \<noteq> dir"
  show "((ex, rt, parent), (ex, rt, dir)) \<in> measure (\<lambda>(ex, rt, d).
          if d = [] then 3 else 2 * length d + (if dirname d = d then 0 else 1))"
  proof (cases "dir = []")
    case True
    then have "parent = ''.''" using p by (simp add: dirname_def)
    then show ?thesis using True dirname_dot by simp
  next
    case False
    have pne: "parent \<noteq> []"
      using p dirname_not_Nil by simp
    from dirname_shrinks[of dir] p ne False
    have "length parent < length dir \<or> (length parent = length dir \<and> dirname parent = parent)"
      by auto
    then show ?thesis using False pne p ne by auto
  qed
qed


declare find_dir.simps [simp del]

text \<open>
  The loop of \<open>find\<close> over the archive extensions: the archive as a static file first,
  then as the output of another loader found by \<open>findExact\<close>.
\<close>

fun find_archive ::
  "filesystem \<Rightarrow> (string \<times> string list) list \<Rightarrow> string \<Rightarrow> string \<Rightarrow> bool \<Rightarrow> string \<Rightarrow>
   (string \<times> extractor_class) list \<Rightarrow> error + loader option"
where
  "find_archive fs interpreters rt tp us dir [] = Inr None"
| "find_archive fs interpreters rt tp us dir ((ext, Extractor) # rest) =
     (let archive = dir @ ext
      in if existsSync fs (join [rt, archive])
         then Inr (Some (new_Extractor Extractor (StaticArchive archive)
                 (drop (length archive - length ext + 1) tp)
                 \<lparr>root = rt, path = join [rt, archive], targetPath = tp, useStale = us\<rparr>))
         else (case findExact fs interpreters rt archive us of
                 Inl e \<Rightarrow> Inl e
               | Inr (Some archiveLoader) \<Rightarrow>
                   Inr (Some (new_Extractor Extractor (LoaderArchive archiveLoader)
                     (drop (length archive - length ext + 1) tp)
                     \<lparr>root = rt, path = path (options archiveLoader), targetPath = tp,
                      useStale = us\<rparr>))
               | Inr None \<Rightarrow> find_archive fs interpreters rt tp us dir rest))"

definition find_loader ::
  "filesystem \<Rightarrow> (string \<times> string list) list \<Rightarrow> string \<Rightarrow> string \<Rightarrow> bool \<Rightarrow> error + loader option"
where
  "find_loader fs interpreters rt tp us =
     (case findExact fs interpreters rt tp us of
        Inl e \<Rightarrow> Inl e
      | Inr (Some exact) \<Rightarrow> Inr (Some exact)
      | Inr None \<Rightarrow>
          (case find_dir (existsSync fs) rt (dirname tp) of
             None \<Rightarrow> Inr None
           | Some dir \<Rightarrow> find_archive fs interpreters rt tp us dir extractors))"

section \<open>Production steps\<close>

text \<open>
  What the three \<open>exec\<close> methods take from outside the repository. A stream is the
  bytes it delivers and the \<open>error\<close> event that ends it, if it does not end well.

  \<^item> \<open>spawn\<close>: the bytes the child wrote to its standard output, which is the output file
    itself, and the \<open>error\<close> event or the exit code (\<open>null\<close>, here \<open>None\<close>, when a
    signal ended the child);
  \<^item> \<open>readFile\<close> of \<open>node:fs/promises\<close>: the bytes of a file, or the error it rejects with;
  \<^item> \<open>loadAsync\<close> of \<open>JSZip\<close>: the members of the archive, each with the stream
    \<open>nodeStream()\<close> gives, or the error it rejects with;
  \<^item> \<open>createReadStream\<close>, \<open>createGunzip\<close>: the streams of \<open>node:fs\<close> and \<open>node:zlib\<close>;
  \<^item> \<open>tar_extract\<close>: the entries \<open>tar-stream\<close> decodes from the bytes it is given, and
    the error of a malformed archive;
  \<^item> \<open>output_pipe\<close>: the output stream that \<open>load\<close> hands to \<open>exec\<close>, as the fate of
    the bytes piped into it: \<open>None\<close> when all of them are written and the stream
    finishes, \<open>Some (n, e)\<close> when it emits the error \<open>e\<close> after \<open>n\<close> bytes.
\<close>

record tar_entry =
  header_name :: string
  entry_data :: string

record host =
  spawn :: "string \<Rightarrow> string list \<Rightarrow> string \<times> (error + int option)"
  readFile :: "string \<Rightarrow> error + string"
  loadAsync :: "string \<Rightarrow> error + (string \<rightharpoonup> string \<times> error option)"
  createReadStream :: "string \<Rightarrow> string \<times> error option"
  createGunzip :: "string \<Rightarrow> string \<times> error option"
  tar_extract :: "string \<Rightarrow> tar_entry list \<times> error option"
  output_pipe :: "string \<Rightarrow> (nat \<times> error) option"

text \<open>
  The outcome of an \<open>exec\<close> that settles: the bytes that reached the output stream, the
  names of the archive entries drained with \<open>resume\<close>, and the error thrown, if any. An
  \<open>exec\<close> whose promise never settles has the outcome \<open>None\<close>.
\<close>

record exec_result =
  piped :: string
  resumed :: "string list"
  thrown :: "error option"

definition exec_throw :: "error \<Rightarrow> exec_result" where
  "exec_throw e = \<lparr>piped = [], resumed = [], thrown = Some e\<rparr>"

text \<open>
  The \<open>preload\<close> closure built by \<open>find\<close>: the archive's own path for a static archive,
  the \<open>load\<close> of the archive's loader otherwise; \<open>nested\<close> is how that \<open>load\<close>
  settles, \<open>None\<close> if it never does.
\<close>

fun preload_result :: "preload \<Rightarrow> (error + string) option \<Rightarrow> (error + string) option" where
  "preload_result (StaticArchive archive) nested = Some (Inr archive)"
| "preload_result (LoaderArchive archiveLoader) nested = nested"

text \<open>
  \<open>source.pipe(output)\<close> awaited with \<open>pipe.on("error", reject).on("finish", resolve)\<close>:
  an error of the output stream rejects; the stream finishes once the source has ended. An
  error of the source has no listener: the source never ends, neither callback is called.
\<close>

definition pipe_to_output :: "host \<Rightarrow> string \<Rightarrow> error option \<Rightarrow> exec_result option" where
  "pipe_to_output h bytes source_error =
     (case output_pipe h bytes of
        Some (n, e) \<Rightarrow> Some \<lparr>piped = take n bytes, resumed = [], thrown = Some e\<rparr>
      | None \<Rightarrow>
          (case source_error of
             None \<Rightarrow> Some \<lparr>piped = bytes, resumed = [], thrown = None\<rparr>
           | Some _ \<Rightarrow> None))"

text \<open>
  The \<open>for await\<close> loop of \<open>TarExtractor.exec\<close> over the entries of the archive;
  \<open>ending\<close> is what happens when the iteration ends without a match.
\<close>

fun tar_entries_loop ::
  "host \<Rightarrow> string \<Rightarrow> tar_entry list \<Rightarrow> exec_result option \<Rightarrow> exec_result option"
where
  "tar_entries_loop h ip [] ending = ending"
| "tar_entries_loop h ip (entry # entries) ending =
     (if header_name entry = ip
      then pipe_to_output h (entry_data entry) None
      else map_option (\<lambda>r. r\<lparr>resumed := header_name entry # resumed r\<rparr>)
             (tar_entries_loop h ip entries ending))"

text \<open>
  How the iteration over the tar stream ends when no entry matched: a malformed archive
  makes the iteration throw; a failure of the file stream or of the decompressor, which
  have no \<open>error\<close> listener and do not end the tar stream, leaves the iteration waiting
  for ever; a stream that ended well lets the loop fall through to the \<open>throw\<close>.
\<close>

definition tar_ending :: "error option \<Rightarrow> error option \<Rightarrow> error option \<Rightarrow> exec_result option" where
  "tar_ending input_error gunzip_error tar_error =
     (case tar_error of
        Some e \<Rightarrow> Some (exec_throw e)
      | None \<Rightarrow>
          if input_error \<noteq> None \<or> gunzip_error \<noteq> None then None
          else Some (exec_throw (Error ''file not found'' (Some ''ENOENT''))))"

text \<open>\<open>exec\<close> of the three loader classes.\<close>

fun exec :: "host \<Rightarrow> loader \<Rightarrow> (error + string) option \<Rightarrow> exec_result option" where
  "exec h (CommandLoader opts command args) nested =
     (case spawn h command args of
        (out, Inl e) \<Rightarrow> Some \<lparr>piped = out, resumed = [], thrown = Some e\<rparr>
      | (out, Inr code) \<Rightarrow>
          Some \<lparr>piped = out, resumed = [],
                thrown = (if code \<noteq> Some 0 then Some (ExitError code) else None)\<rparr>)"
| "exec h (ZipExtractor opts pre ip) nested =
     (case preload_result pre nested of
        None \<Rightarrow> None
      | Some (Inl e) \<Rightarrow> Some (exec_throw e)
      | Some (Inr p) \<Rightarrow>
          (case readFile h (join [root opts, p]) of
             Inl e \<Rightarrow> Some (exec_throw e)
           | Inr bytes \<Rightarrow>
               (case loadAsync h bytes of
                  Inl e \<Rightarrow> Some (exec_throw e)
                | Inr archive \<Rightarrow>
                    (case archive ip of
                       None \<Rightarrow> Some (exec_throw (Error ''file not found'' (Some ''ENOENT'')))
                     | Some (data, source_error) \<Rightarrow> pipe_to_output h data source_error))))"
| "exec h (TarExtractor opts pre ip gunzip) nested =
     (case preload_result pre nested of
        None \<Rightarrow> None
      | Some (Inl e) \<Rightarrow> Some (exec_throw e)
      | Some (Inr p) \<Rightarrow>
          (case createReadStream h (join [root opts, p]) of
             (input, input_error) \<Rightarrow>
               (case (if gunzip then createGunzip h input else (input, None)) of
                  (bytes, gunzip_error) \<Rightarrow>
                    (case tar_extract h bytes of
                       (entries, tar_error) \<Rightarrow>
                         tar_entries_loop h ip entries
                           (tar_ending input_error gunzip_error tar_error)))))"

section \<open>Source file hashes\<close>

text \<open>
  \<open>String(n)\<close> for a natural number \<open>n\<close>, such as the process id: its decimal digits.
\<close>

definition digit_char :: "nat \<Rightarrow> char" where
  "digit_char d = char_of (48 + d)"

function string_of_nat :: "nat \<Rightarrow> string" where
  "string_of_nat n =
     (if n < 10 then [digit_char n] else string_of_nat (n div 10) @ [digit_char (n mod 10)])"
  by pat_completeness auto
termination
  by (relation "measure id") auto

declare string_of_nat.simps [simp del]

text \<open>
  A JavaScript number, as \<open>String\<close> writes it in plain decimal notation (which it does
  for every finite number of magnitude below \<open>1e21\<close> and not below \<open>1e-6\<close>, and
  for zero): the sign, the whole part and the digits after the point, which are the
  fewest that tell the number from every other one. A modification time is such a number;
  the file system reports fractions of a millisecond.
\<close>

record number =
  num_negative :: bool
  num_whole :: nat
  num_fraction :: "nat list"

text \<open>
  The numbers \<open>String\<close> tells apart: the digits after the point are digits and do not
  end in zero, and there is no negative zero (\<open>String(-0)\<close> is \<open>"0"\<close>).
\<close>

definition number_ok :: "number \<Rightarrow> bool" where
  "number_ok n =
     (list_all (\<lambda>d. d < 10) (num_fraction n)
      \<and> (num_fraction n = [] \<or> last (num_fraction n) \<noteq> 0)
      \<and> (num_negative n \<longrightarrow> num_whole n \<noteq> 0 \<or> num_fraction n \<noteq> []))"

definition String :: "number \<Rightarrow> string" where
  "String n =
     (if num_negative n then ''-'' else [])
     @ string_of_nat (num_whole n)
     @ (if num_fraction n = [] then [] else CHR ''.'' # map digit_char (num_fraction n))"

text \<open>
  \<open>getFileInfo\<close> lives in \<open>javascript/module.js\<close>, outside the sources at hand; it is a
  parameter of the model: for a root and a path it gives the hex content hash and the
  modification time of a readable file, or nothing. So are \<open>relative\<close> of
  \<open>node:path/posix\<close>, which depends on the working directory, and the digest function:
  \<open>sha256 bytes\<close> stands for \<open>createHash("sha256").update(bytes).digest("hex")\<close>.
\<close>

record FileInfo =
  hash :: string
  mtimeMs :: number

record hash_env =
  getFileInfo :: "string \<Rightarrow> string \<Rightarrow> FileInfo option"
  relative :: "string \<Rightarrow> string \<Rightarrow> string"
  sha256 :: "string \<Rightarrow> string"

definition getSourceFilePath ::
  "hash_env \<Rightarrow> filesystem \<Rightarrow> (string \<times> string list) list \<Rightarrow> string \<Rightarrow> string \<Rightarrow> error + string"
where
  "getSourceFilePath env fs interpreters rt name =
     (if \<not> existsSync fs (join [rt, name])
      then (case find_loader fs interpreters rt name False of
              Inl e \<Rightarrow> Inl e
            | Inr (Some l) \<Rightarrow> Inr (relative env rt (path (options l)))
            | Inr None \<Rightarrow> Inr name)
      else Inr name)"

definition getSourceFileHash ::
  "hash_env \<Rightarrow> filesystem \<Rightarrow> (string \<times> string list) list \<Rightarrow> string \<Rightarrow> string \<Rightarrow> error + string"
where
  "getSourceFileHash env fs interpreters rt name =
     (case getSourceFilePath env fs interpreters rt name of
        Inl e \<Rightarrow> Inl e
      | Inr p \<Rightarrow>
          (case getFileInfo env rt p of
             None \<Rightarrow> Inr (sha256 env [])
           | Some info \<Rightarrow>
               Inr (if p = name then hash info
                    else sha256 env (hash info @ String (mtimeMs info)))))"

section \<open>Loader.load\<close>

text \<open>
  The files \<open>load\<close> touches, as a map from path to modification time and content.
  A modification time \<open>mtimeMs\<close> is a number of milliseconds with a fraction, compared
  as such; the clock \<open>Date.now()\<close> reads whole milliseconds. \<open>maybeStat\<close> and
  \<open>prepareOutput\<close> live in \<open>files.js\<close>, outside the sources at hand.
\<close>

record file_node =
  node_mtimeMs :: rat
  node_data :: string

text \<open>
  Modelled from the spec: \<open>maybeStat\<close> is missing from the sources; the spec has "stat
  loader source and existing cache file; either missing is no info, not an error", so it
  gives the modification time of an existing file and nothing for a missing one.
\<close>

definition maybeStat :: "(string \<rightharpoonup> file_node) \<Rightarrow> string \<Rightarrow> rat option" where
  "maybeStat fs p = map_option node_mtimeMs (fs p)"

text \<open>The paths \<open>load\<close> computes for a loader, in a process with the given id.\<close>

definition key_of :: "loader \<Rightarrow> string" where
  "key_of l = join [root (options l), targetPath (options l)]"

definition outputPath :: "loader \<Rightarrow> string" where
  "outputPath l = join [''.observablehq'', ''cache'', targetPath (options l)]"

definition cachePath :: "loader \<Rightarrow> string" where
  "cachePath l = join [root (options l), outputPath l]"

definition tempPath :: "nat \<Rightarrow> loader \<Rightarrow> string" where
  "tempPath p l =
     join [root (options l), ''.observablehq'', ''cache'',
           targetPath (options l) @ ''.'' @ string_of_nat p]"

definition errorPath :: "nat \<Rightarrow> loader \<Rightarrow> string" where
  "errorPath p l = tempPath p l @ ''.err''"

text \<open>
  The \<open>await\<close> at which the asynchronous body of \<open>load\<close> is suspended. \<open>Settled\<close>: the
  promise has its result and the \<open>finally\<close> callback that deletes the registry entry has
  not run yet; \<open>Cleared\<close>: it has.
\<close>

datatype pc =
    AwaitStatLoader
  | AwaitStatCache
  | AwaitStatError
  | AwaitUnlink
  | AwaitPrepareTemp
  | AwaitPrepareCache
  | AwaitOpen
  | AwaitExec
  | AwaitRenameCache
  | AwaitRenameError error
  | AwaitClose "error option"
  | Settled
  | Cleared

text \<open>
  A command is one promise stored in \<open>runningCommands\<close>, with the state of its body: the
  loader it runs for, where it is suspended, the \<open>loaderStat\<close> it holds, and its result
  once settled (\<open>Inl\<close>: rejected, \<open>Inr\<close>: resolved with the output path).
\<close>

record command =
  this :: loader
  awaiting :: pc
  loaderStat :: "rat option"
  settled :: "(error + string) option"

text \<open>
  The process: the files, the clock \<open>Date.now()\<close>, \<open>process.pid\<close>, the registry
  \<open>runningCommands\<close> from key to command (a command is its index in \<open>commands\<close>), the
  commands started so far, the promises that the calls of \<open>load\<close> have returned (each
  is a promise of its own that follows one command: \<open>load\<close> is an \<open>async\<close> method, so
  \<open>return command\<close> resolves a new promise with the command), the log of the commands
  whose production step \<open>exec\<close> was invoked, and the commands that hold an open handle
  of their temporary file.
\<close>

record process =
  files :: "string \<rightharpoonup> file_node"
  now :: int
  pid :: nat
  runningCommands :: "string \<rightharpoonup> nat"
  commands :: "command list"
  promises :: "nat list"
  execs :: "nat list"
  openFds :: "nat list"

definition init_process :: "(string \<rightharpoonup> file_node) \<Rightarrow> int \<Rightarrow> nat \<Rightarrow> process" where
  "init_process fs t p =
     \<lparr>files = fs, now = t, pid = p, runningCommands = Map.empty, commands = [],
      promises = [], execs = [], openFds = []\<rparr>"

text \<open>
  The synchronous part of \<open>load\<close>: the registry lookup and, for a key that is not
  registered, the start of the body (which runs up to its first \<open>await\<close>) and the
  registration; then \<open>return command\<close>. It returns the new promise, which follows the
  command.
\<close>

definition load :: "loader \<Rightarrow> process \<Rightarrow> nat \<times> process" where
  "load l w =
     (let key = join [root (options l), targetPath (options l)];
          (command, w') =
            (case runningCommands w key of
               Some command \<Rightarrow> (command, w)
             | None \<Rightarrow>
                 (let command = length (commands w)
                  in (command,
                      w\<lparr>commands := commands w @
                           [\<lparr>this = l, awaiting = AwaitStatLoader, loaderStat = None, settled = None\<rparr>],
                        runningCommands := (runningCommands w)(key \<mapsto> command)\<rparr>)))
      in (length (promises w'), w'\<lparr>promises := promises w' @ [command]\<rparr>))"

text \<open>How a promise returned by \<open>load\<close> has settled: as the command it follows.\<close>

definition result_of :: "nat \<Rightarrow> process \<Rightarrow> (error + string) option" where
  "result_of p w = settled (commands w ! (promises w ! p))"

definition rename_enoent :: error where
  "rename_enoent = Error ''ENOENT: no such file or directory, rename'' (Some ''ENOENT'')"

text \<open>
  The body of \<open>load\<close> between two \<open>await\<close>s, for the promise \<open>c\<close> whose state is \<open>t\<close>:
  the awaited operation takes effect and the body runs to its next \<open>await\<close>, or
  settles. It returns the new state of the promise and the process; it does not read or
  change \<open>commands\<close>. \<open>r\<close> is what the production step did; it is read only when the
  body resumes from \<open>await this.exec(...)\<close>. The \<open>finally\<close> callback of a settled
  promise is one more segment.
\<close>

definition body :: "nat \<Rightarrow> exec_result \<Rightarrow> command \<Rightarrow> process \<Rightarrow> command \<times> process" where
  "body c r t w =
     (let l = this t;
          tempP = tempPath (pid w) l;
          errorP = errorPath (pid w) l
      in case awaiting t of
           AwaitStatLoader \<Rightarrow>
             (t\<lparr>awaiting := AwaitStatCache, loaderStat := maybeStat (files w) (path (options l))\<rparr>, w)
         | AwaitStatCache \<Rightarrow>
             (case maybeStat (files w) (cachePath l) of
                None \<Rightarrow> (t\<lparr>awaiting := AwaitStatError\<rparr>, w)
              | Some cacheMtime \<Rightarrow>
                  (case loaderStat t of
                     None \<Rightarrow> (t\<lparr>awaiting := Settled, settled := Some (Inl TypeError)\<rparr>, w)
                   | Some loaderMtime \<Rightarrow>
                       if cacheMtime < loaderMtime
                       then (if useStale (options l)
                             then (t\<lparr>awaiting := Settled, settled := Some (Inr (outputPath l))\<rparr>, w)
                             else (t\<lparr>awaiting := AwaitStatError\<rparr>, w))
                       else (t\<lparr>awaiting := Settled, settled := Some (Inr (outputPath l))\<rparr>, w)))
         | AwaitStatError \<Rightarrow>
             (case maybeStat (files w) errorP of
                None \<Rightarrow> (t\<lparr>awaiting := AwaitPrepareTemp\<rparr>, w)
              | Some errorMtime \<Rightarrow>
                  (case loaderStat t of
                     None \<Rightarrow> (t\<lparr>awaiting := Settled, settled := Some (Inl TypeError)\<rparr>, w)
                   | Some loaderMtime \<Rightarrow>
                       if errorMtime > loaderMtime \<and> errorMtime > of_int (- 1000 + now w)
                       then (t\<lparr>awaiting := Settled,
                               settled := Some (Inl (Error ''loader skipped due to recent error''
                                 None))\<rparr>, w)
                       else (t\<lparr>awaiting := AwaitUnlink\<rparr>, w)))
         | AwaitUnlink \<Rightarrow>
             (t\<lparr>awaiting := AwaitPrepareTemp\<rparr>, w\<lparr>files := (files w)(errorP := None)\<rparr>)
         | AwaitPrepareTemp \<Rightarrow> (t\<lparr>awaiting := AwaitPrepareCache\<rparr>, w)
         | AwaitPrepareCache \<Rightarrow> (t\<lparr>awaiting := AwaitOpen\<rparr>, w)
         | AwaitOpen \<Rightarrow>
             (t\<lparr>awaiting := AwaitExec\<rparr>,
              w\<lparr>files := (files w)(tempP \<mapsto> \<lparr>node_mtimeMs = of_int (now w), node_data = []\<rparr>),
                openFds := c # openFds w,
                execs := execs w @ [c]\<rparr>)
         | AwaitExec \<Rightarrow>
             (t\<lparr>awaiting := (case thrown r of None \<Rightarrow> AwaitRenameCache
                        | Some e \<Rightarrow> AwaitRenameError e)\<rparr>,
              w\<lparr>files := (files w)(tempP \<mapsto> \<lparr>node_mtimeMs = of_int (now w), node_data = piped r\<rparr>)\<rparr>)
         | AwaitRenameCache \<Rightarrow>
             (case files w tempP of
                None \<Rightarrow> (t\<lparr>awaiting := AwaitRenameError rename_enoent\<rparr>, w)
              | Some f \<Rightarrow>
                  (t\<lparr>awaiting := AwaitClose None\<rparr>,
                   w\<lparr>files := (files w)(tempP := None, cachePath l \<mapsto> f)\<rparr>))
         | AwaitRenameError e \<Rightarrow>
             (case files w tempP of
                None \<Rightarrow> (t\<lparr>awaiting := AwaitClose (Some rename_enoent)\<rparr>, w)
              | Some f \<Rightarrow>
                  (t\<lparr>awaiting := AwaitClose (Some e)\<rparr>,
                   w\<lparr>files := (files w)(tempP := None, errorP \<mapsto> f)\<rparr>))
         | AwaitClose e \<Rightarrow>
             (t\<lparr>awaiting := Settled,
                settled := Some (case e of None \<Rightarrow> Inr (outputPath l) | Some e' \<Rightarrow> Inl e')\<rparr>,
              w\<lparr>openFds := remove1 c (openFds w)\<rparr>)
         | Settled \<Rightarrow>
             (t\<lparr>awaiting := Cleared\<rparr>,
              w\<lparr>runningCommands := (runningCommands w)(key_of l := None)\<rparr>)
         | Cleared \<Rightarrow> (t, w))"

text \<open>One resumption of promise \<open>c\<close>: its body runs one segment.\<close>

definition resume :: "nat \<Rightarrow> exec_result \<Rightarrow> process \<Rightarrow> process" where
  "resume c r w =
     (if length (commands w) \<le> c then w
      else (case body c r (commands w ! c) w of
              (t', w') \<Rightarrow> w'\<lparr>commands := (commands w')[c := t']\<rparr>))"

text \<open>
  What can happen between two resumptions under the cooperative scheduler: a call of
  \<open>load\<close>, the resumption of any promise's body, time passing, and a change of a file
  from outside.
\<close>

datatype event =
    Load loader
  | Resume nat exec_result
  | Tick nat
  | WriteFile string "file_node option"

fun step :: "event \<Rightarrow> process \<Rightarrow> process" where
  "step (Load l) w = snd (load l w)"
| "step (Resume c r) w = resume c r w"
| "step (Tick n) w = w\<lparr>now := now w + int n\<rparr>"
| "step (WriteFile p f) w = w\<lparr>files := (files w)(p := f)\<rparr>"

definition run :: "event list \<Rightarrow> process \<Rightarrow> process" where
  "run es w = fold step es w"

text \<open>
  A command awaited with nothing else scheduled in between: twelve resumptions take the
  body from its first \<open>await\<close> through its last and through the \<open>finally\<close> callback;
  resuming a cleared command changes nothing.
\<close>

definition await_command :: "exec_result \<Rightarrow> nat \<Rightarrow> process \<Rightarrow> process" where
  "await_command r c w = (resume c r ^^ 12) w"

section \<open>Rendering numbers is injective\<close>

definition nat_of_digits :: "string \<Rightarrow> nat" where
  "nat_of_digits s = foldl (\<lambda>a c. 10 * a + (of_char c - 48)) 0 s"

lemma nat_of_digits_snoc: "nat_of_digits (s @ [c]) = 10 * nat_of_digits s + (of_char c - 48)"
  by (simp add: nat_of_digits_def)

lemma of_char_digit_char: "d < 10 \<Longrightarrow> of_char (digit_char d) = 48 + d"
  by (simp add: digit_char_def)

lemma string_of_nat_small: "n < 10 \<Longrightarrow> string_of_nat n = [digit_char n]"
  by (subst string_of_nat.simps) simp

lemma string_of_nat_large:
  "\<not> n < 10 \<Longrightarrow> string_of_nat n = string_of_nat (n div 10) @ [digit_char (n mod 10)]"
  by (subst string_of_nat.simps) simp

lemma nat_of_digits_string_of_nat: "nat_of_digits (string_of_nat n) = n"
proof (induction n rule: string_of_nat.induct)
  case (1 n)
  show ?case
  proof (cases "n < 10")
    case True
    then show ?thesis
      by (simp add: string_of_nat_small nat_of_digits_def of_char_digit_char)
  next
    case False
    with 1 have "nat_of_digits (string_of_nat (n div 10)) = n div 10" by simp
    with False show ?thesis
      by (simp add: string_of_nat_large nat_of_digits_snoc of_char_digit_char)
  qed
qed

lemma string_of_nat_inj: "string_of_nat m = string_of_nat n \<Longrightarrow> m = n"
  by (metis nat_of_digits_string_of_nat)

lemma string_of_nat_digits: "c \<in> set (string_of_nat n) \<Longrightarrow> \<exists>d < 10. c = digit_char d"
proof (induction n rule: string_of_nat.induct)
  case (1 n)
  show ?case
  proof (cases "n < 10")
    case True
    with "1.prems" show ?thesis
      by (auto simp: string_of_nat_small)
  next
    case False
    with "1.prems" have "c \<in> set (string_of_nat (n div 10)) \<or> c = digit_char (n mod 10)"
      by (auto simp: string_of_nat_large)
    moreover have "n mod 10 < 10" by simp
    ultimately show ?thesis using 1 False by blast
  qed
qed

lemma digit_char_of_char: "d < 10 \<Longrightarrow> of_char (digit_char d) \<noteq> (45 :: nat)"
  by (simp add: of_char_digit_char)

lemma digit_char_not_minus: "d < 10 \<Longrightarrow> digit_char d \<noteq> CHR ''-''"
proof
  assume "d < 10" and "digit_char d = CHR ''-''"
  then have "(of_char (digit_char d) :: nat) = of_char CHR ''-''" by simp
  with \<open>d < 10\<close> show False by (simp add: of_char_digit_char)
qed

lemma string_of_nat_not_Nil: "string_of_nat n \<noteq> []"
  by (cases "n < 10") (simp_all add: string_of_nat_small string_of_nat_large)

lemma string_of_nat_hd: "hd (string_of_nat n) \<noteq> CHR ''-''"
proof -
  have "hd (string_of_nat n) \<in> set (string_of_nat n)"
    using string_of_nat_not_Nil by simp
  then obtain d where "d < 10" "hd (string_of_nat n) = digit_char d"
    using string_of_nat_digits by blast
  then show ?thesis
    using digit_char_not_minus by simp
qed

section \<open>Facts about paths\<close>

lemma split_slash_not_Nil: "split_slash p \<noteq> []"
  by (induction p) (auto split: list.splits)

lemma split_slash_append:
  "split_slash (a @ CHR ''/'' # b) = split_slash a @ split_slash b"
proof (induction a)
  case Nil
  then show ?case by simp
next
  case (Cons c cs)
  obtain s ss where "split_slash cs = s # ss"
    using split_slash_not_Nil by (cases "split_slash cs") auto
  with Cons show ?case by simp
qed

lemma norm_step_empty: "norm_step b res [] = res"
  by (simp add: norm_step_def)

lemma join_root_double_slash: "join [rt, ''//''] = join [rt, ''/'']"
proof (cases "rt = []")
  case True
  then show ?thesis
    by (simp add: join_def normalize_path_def normalizeString_def norm_step_def)
next
  case False
  have s3: "split_slash (rt @ ''///'') = split_slash rt @ [[], [], []]"
    using split_slash_append[of rt "''//''"] by simp
  have s2: "split_slash (rt @ ''//'') = split_slash rt @ [[], []]"
    using split_slash_append[of rt "''/''"] by simp
  have "normalizeString (rt @ ''///'') b = normalizeString (rt @ ''//'') b" for b
    by (simp add: normalizeString_def s3 s2 norm_step_empty)
  moreover have "hd (rt @ ''///'') = hd (rt @ ''//'')"
    using False by simp
  ultimately have "normalize_path (rt @ ''///'') = normalize_path (rt @ ''//'')"
    by (simp add: normalize_path_def Let_def)
  with False show ?thesis
    by (simp add: join_def)
qed

text \<open>
  A proper cut of a path: a non-empty prefix that ends just before a slash. Except for
  its three special results, \<open>dirname\<close> returns such a cut.
\<close>

definition cut_of :: "string \<Rightarrow> string \<Rightarrow> bool" where
  "cut_of p a = (\<exists>k. a = take k p \<and> k < length p \<and> p ! k = CHR ''/'')"

lemma cut_of_trans: "cut_of p a \<Longrightarrow> cut_of a b \<Longrightarrow> cut_of p b"
  unfolding cut_of_def
proof (elim exE conjE)
  fix k j
  assume a: "a = take k p" "k < length p" "p ! k = CHR ''/''"
    and b: "b = take j a" "j < length a" "a ! j = CHR ''/''"
  from a(1,2) b(2) have jk: "j < k" by simp
  then have "take j (take k p) = take j p" by (simp add: min_def)
  moreover have "take k p ! j = p ! j" using jk by simp
  moreover have "j < length p" using jk a(2) by simp
  ultimately have "b = take j p \<and> j < length p \<and> p ! j = CHR ''/''"
    using a(1) b(1,3) by simp
  then show "\<exists>k. b = take k p \<and> k < length p \<and> p ! k = CHR ''/''" by blast
qed

lemma cut_of_decompose: "cut_of p a \<Longrightarrow> p = a @ CHR ''/'' # drop (length a + 1) p"
  unfolding cut_of_def
proof (elim exE conjE)
  fix k
  assume a: "a = take k p" "k < length p" "p ! k = CHR ''/''"
  from a(2) have "p = take k p @ p ! k # drop (Suc k) p"
    by (rule id_take_nth_drop)
  with a show "p = a @ CHR ''/'' # drop (length a + 1) p"
    by (simp add: min_def)
qed

lemma dirname_cut:
  assumes "dirname p \<noteq> ''.''" and "dirname p \<noteq> ''/''" and "dirname p \<noteq> ''//''"
  shows "cut_of p (dirname p)"
proof -
  have pne: "p \<noteq> []"
  proof
    assume "p = []"
    then have "dirname p = ''.''" by (simp add: dirname_def)
    with assms(1) show False by simp
  qed
  define s where "s = dropWhile (\<lambda>c. c = CHR ''/'') (rev (tl p))"
  define r where "r = dropWhile (\<lambda>c. c \<noteq> CHR ''/'') s"
  have dn: "dirname p = (if r = [] then (if hd p = CHR ''/'' then ''/'' else ''.'')
           else if hd p = CHR ''/'' \<and> length r = 1 then ''//''
           else take (length r) p)"
    using pne r_def unfolding s_def by (rule dirname_unfold)
  have rne: "r \<noteq> []"
  proof
    assume "r = []"
    with dn have "dirname p = ''/'' \<or> dirname p = ''.''" by simp
    with assms(1,2) show False by simp
  qed
  have dn': "dirname p = take (length r) p"
  proof (cases "hd p = CHR ''/'' \<and> length r = 1")
    case True
    with dn rne have "dirname p = ''//''" by simp
    with assms(3) show ?thesis by simp
  next
    case False
    with rne show ?thesis unfolding dn by auto
  qed
  have hd_r: "hd r = CHR ''/''"
    using rne hd_dropWhile[of "\<lambda>c. c \<noteq> CHR ''/''" s] unfolding r_def by simp
  have "rev (tl p) =
      (takeWhile (\<lambda>c. c = CHR ''/'') (rev (tl p)) @ takeWhile (\<lambda>c. c \<noteq> CHR ''/'') s) @ r"
    unfolding r_def s_def by simp
  then obtain u where u: "rev (tl p) = u @ r" ..
  then have tlp: "tl p = rev r @ rev u"
    by (metis rev_append rev_rev_ident)
  have len: "length r < length p"
    using tlp pne by (cases p) auto
  have "tl p ! (length r - 1) = last (rev r)"
    using rne tlp by (simp add: nth_append last_conv_nth)
  also have "\<dots> = CHR ''/''"
    using rne hd_r by (simp add: last_rev)
  finally have "p ! length r = CHR ''/''"
    using pne rne by (cases p) (auto simp: nth_Cons')
  with dn' len show ?thesis
    unfolding cut_of_def by blast
qed

section \<open>The shape of joined paths\<close>

lemma split_slash_no_slash: "s \<in> set (split_slash p) \<Longrightarrow> CHR ''/'' \<notin> set s"
proof (induction p arbitrary: s)
  case Nil
  then show ?case by simp
next
  case (Cons c cs)
  obtain x xs where sp: "split_slash cs = x # xs"
    using split_slash_not_Nil by (cases "split_slash cs") auto
  show ?case
  proof (cases "c = CHR ''/''")
    case True
    with Cons show ?thesis by auto
  next
    case False
    with Cons.prems sp have "s = c # x \<or> s \<in> set xs" by simp
    with Cons.IH[of x] Cons.IH[of s] sp False show ?thesis by auto
  qed
qed

lemma split_slash_plain: "CHR ''/'' \<notin> set u \<Longrightarrow> split_slash u = [u]"
  by (induction u) auto

lemma split_slash_snoc:
  assumes "CHR ''/'' \<notin> set u"
  shows "split_slash (x @ u) = butlast (split_slash x) @ [last (split_slash x) @ u]"
proof (induction x)
  case Nil
  from assms show ?case by (simp add: split_slash_plain)
next
  case (Cons c cs)
  obtain y ys where sp: "split_slash cs = y # ys"
    using split_slash_not_Nil by (cases "split_slash cs") auto
  obtain z zs where sp': "split_slash (cs @ u) = z # zs"
    using split_slash_not_Nil by (cases "split_slash (cs @ u)") auto
  from Cons sp sp' show ?case
    by (cases ys) (auto split: if_splits)
qed

lemma split_join_slash:
  assumes "\<forall>s \<in> set S. CHR ''/'' \<notin> set s" and "S \<noteq> []"
  shows "split_slash (join_slash S) = S"
  using assms
proof (induction S rule: join_slash.induct)
  case 1
  then show ?case by simp
next
  case (2 s)
  then show ?case by (simp add: split_slash_plain)
next
  case (3 s t ss)
  then have "split_slash (join_slash (t # ss)) = t # ss" by simp
  with 3 show ?case
    by (simp add: split_slash_append split_slash_plain)
qed

text \<open>
  The components \<open>normalizeString\<close> keeps are never empty, never \<open>.\<close> and hold no
  slash.
\<close>

definition stack_ok :: "string list \<Rightarrow> bool" where
  "stack_ok S = (\<forall>s \<in> set S. s \<noteq> [] \<and> s \<noteq> ''.'' \<and> CHR ''/'' \<notin> set s)"

lemma stack_ok_Nil: "stack_ok []"
  by (simp add: stack_ok_def)

lemma stack_ok_butlast: "stack_ok S \<Longrightarrow> stack_ok (butlast S)"
  unfolding stack_ok_def by (meson in_set_butlastD)

lemma stack_ok_step:
  assumes "stack_ok S" and "CHR ''/'' \<notin> set seg"
  shows "stack_ok (norm_step b S seg)"
proof -
  have "stack_ok (S @ [seg])" if "seg \<noteq> []" "seg \<noteq> ''.''"
    using assms that by (auto simp: stack_ok_def)
  moreover have "stack_ok (S @ [''..''])"
    using assms(1) by (auto simp: stack_ok_def)
  ultimately show ?thesis
    using assms(1) stack_ok_butlast[OF assms(1)] by (auto simp: norm_step_def)
qed

lemma stack_ok_foldl:
  "stack_ok S \<Longrightarrow> \<forall>s \<in> set L. CHR ''/'' \<notin> set s \<Longrightarrow> stack_ok (foldl (norm_step b) S L)"
  by (induction L arbitrary: S) (simp_all add: stack_ok_step)

lemma stack_ok_split: "stack_ok S \<Longrightarrow> stack_ok (foldl (norm_step b) S (split_slash p))"
  by (rule stack_ok_foldl) (auto dest: split_slash_no_slash)

lemma join_slash_Nil_iff: "stack_ok S \<Longrightarrow> join_slash S = [] \<longleftrightarrow> S = []"
  by (induction S rule: join_slash.induct) (auto simp: stack_ok_def)

text \<open>How \<open>normalize\<close> writes a list of kept components.\<close>

definition render :: "bool \<Rightarrow> bool \<Rightarrow> string list \<Rightarrow> string" where
  "render isAbsolute trailingSeparator S =
     (if S = [] then (if isAbsolute then ''/'' else if trailingSeparator then ''./'' else ''.'')
      else (if isAbsolute then ''/'' else []) @ join_slash S
             @ (if trailingSeparator then ''/'' else []))"

lemma normalize_path_render:
  assumes "p \<noteq> []"
  shows "normalize_path p
           = render (hd p = CHR ''/'') (last p = CHR ''/'')
               (foldl (norm_step (hd p \<noteq> CHR ''/'')) [] (split_slash p))"
proof -
  have "stack_ok (foldl (norm_step (hd p \<noteq> CHR ''/'')) [] (split_slash p))"
    by (intro stack_ok_split stack_ok_Nil)
  then show ?thesis
    using assms
    by (simp add: normalize_path_def render_def normalizeString_def Let_def join_slash_Nil_iff)
qed

lemma render_not_Nil: "stack_ok S \<Longrightarrow> render a t S \<noteq> []"
  by (auto simp: render_def join_slash_Nil_iff)

lemma norm_step_dot: "norm_step b R ''.'' = R"
  by (simp add: norm_step_def)

lemma foldl_norm_render:
  assumes "stack_ok S"
  shows "foldl (norm_step b) R (split_slash (render a t S)) = foldl (norm_step b) R S"
proof (cases "S = []")
  case True
  then show ?thesis
    by (simp add: render_def norm_step_empty norm_step_dot)
next
  case False
  have ns: "\<forall>s \<in> set S. CHR ''/'' \<notin> set s"
    using assms by (simp add: stack_ok_def)
  have sp: "split_slash (join_slash S) = S"
    using ns False by (rule split_join_slash)
  have tr: "split_slash (join_slash S @ ''/'') = S @ [[]]"
    using split_slash_append[of "join_slash S" "[]"] sp by simp
  have "split_slash (render a t S)
      = (if a then [[]] else []) @ S @ (if t then [[]] else [])"
    using False sp tr by (simp add: render_def)
  then show ?thesis
    by (simp add: norm_step_empty)
qed

lemma norm_step_normal:
  "seg \<noteq> [] \<Longrightarrow> seg \<noteq> ''.'' \<Longrightarrow> seg \<noteq> ''..'' \<Longrightarrow> norm_step b R seg = R @ [seg]"
  by (simp add: norm_step_def)

lemma foldl_norm_stack:
  assumes "stack_ok N" and "\<forall>s \<in> set N. s \<noteq> ''..''"
  shows "foldl (norm_step b) R N = R @ N"
  using assms
proof (induction N arbitrary: R)
  case Nil
  then show ?case by simp
next
  case (Cons s N)
  then have "norm_step b R s = R @ [s]"
    by (intro norm_step_normal) (auto simp: stack_ok_def)
  with Cons show ?case by (simp add: stack_ok_def)
qed

text \<open>
  Normalizing a relative path first and joining it afterwards keeps the same components
  as joining it as it is.
\<close>

lemma foldl_norm_step_commute:
  assumes "stack_ok N" and "CHR ''/'' \<notin> set s"
  shows "foldl (norm_step b) R (norm_step True N s) = norm_step b (foldl (norm_step b) R N) s"
proof (cases "s = ''..'' \<and> N \<noteq> [] \<and> last N \<noteq> ''..''")
  case True
  then obtain M z where N: "N = M @ [z]" and z: "z \<noteq> ''..''"
    by (metis append_butlast_last_id)
  from assms(1) N have zok: "z \<noteq> []" "z \<noteq> ''.''"
    by (auto simp: stack_ok_def)
  have "foldl (norm_step b) R N = foldl (norm_step b) R M @ [z]"
    unfolding N using zok z by (simp add: norm_step_normal)
  then have "norm_step b (foldl (norm_step b) R N) ''..'' = foldl (norm_step b) R M"
    using z by (simp add: norm_step_def)
  moreover have "norm_step True N ''..'' = M"
    using N z by (simp add: norm_step_def)
  ultimately show ?thesis using True by simp
next
  case False
  then have "norm_step True N s = N \<or> norm_step True N s = N @ [s]"
    by (auto simp: norm_step_def)
  then show ?thesis
  proof
    assume e: "norm_step True N s = N"
    with False have "s = [] \<or> s = ''.''"
      by (auto simp: norm_step_def split: if_splits)
    with e show ?thesis by (auto simp: norm_step_def)
  next
    assume "norm_step True N s = N @ [s]"
    then show ?thesis by simp
  qed
qed

lemma foldl_norm_twice:
  assumes "\<forall>s \<in> set L. CHR ''/'' \<notin> set s"
  shows "foldl (norm_step b) R (foldl (norm_step True) [] L) = foldl (norm_step b) R L"
  using assms
proof (induction L rule: rev_induct)
  case Nil
  then show ?case by simp
next
  case (snoc s L)
  have ok: "stack_ok (foldl (norm_step True) [] L)"
    using snoc.prems by (intro stack_ok_foldl stack_ok_Nil) simp
  from snoc.prems have s: "CHR ''/'' \<notin> set s" by simp
  from snoc show ?case
    by (simp add: foldl_norm_step_commute[OF ok s])
qed

lemma hd_render_relative:
  assumes "stack_ok S"
  shows "hd (render False t S) \<noteq> CHR ''/''"
proof (cases S)
  case Nil
  then show ?thesis by (simp add: render_def)
next
  case (Cons s ss)
  with assms have s: "s \<noteq> []" "CHR ''/'' \<notin> set s"
    by (auto simp: stack_ok_def)
  then have h: "hd (join_slash (s # ss)) = hd s" and ne: "join_slash (s # ss) \<noteq> []"
    by (cases ss; simp)+
  from s have "hd s \<noteq> CHR ''/''" by (cases s) auto
  with h ne Cons show ?thesis
    by (simp add: render_def hd_append2)
qed

lemma join_slash_last_not_Nil: "S \<noteq> [] \<Longrightarrow> last S \<noteq> [] \<Longrightarrow> join_slash S \<noteq> []"
  by (induction S rule: join_slash.induct) auto

lemma last_join_slash: "S \<noteq> [] \<Longrightarrow> last S \<noteq> [] \<Longrightarrow> last (join_slash S) = last (last S)"
proof (induction S rule: join_slash.induct)
  case 1
  then show ?case by simp
next
  case (2 s)
  then show ?case by simp
next
  case (3 s t ss)
  then have "join_slash (t # ss) \<noteq> []"
    by (intro join_slash_last_not_Nil) simp_all
  with 3 show ?case by simp
qed

lemma join_slash_snoc_append:
  "join_slash (S @ [z]) @ v = join_slash (S @ [z @ v])"
  by (induction S rule: join_slash.induct) auto

section \<open>The cache path, the temporary path and the error path\<close>

lemma split_slash_render:
  assumes "stack_ok S"
  shows "split_slash (render a t S)
           = (if S = [] then (if a then [[], []] else if t then [''.'', []] else [''.''])
              else (if a then [[]] else []) @ S @ (if t then [[]] else []))"
proof (cases "S = []")
  case True
  then show ?thesis by (simp add: render_def)
next
  case False
  have ns: "\<forall>s \<in> set S. CHR ''/'' \<notin> set s"
    using assms by (simp add: stack_ok_def)
  have sp: "split_slash (join_slash S) = S"
    using ns False by (rule split_join_slash)
  have tr: "split_slash (join_slash S @ ''/'') = S @ [[]]"
    using split_slash_append[of "join_slash S" "[]"] sp by simp
  show ?thesis
    using False sp tr by (simp add: render_def)
qed

text \<open>
  A path that \<open>normalize\<close> writes without a trailing slash and whose last component is
  \<open>z\<close> is written from no other list of components.
\<close>

lemma render_eq_snoc:
  assumes "stack_ok S" and "stack_ok (X @ [z])"
    and "render a t S = render a False (X @ [z])"
  shows "S = X @ [z]"
proof -
  from assms(2) have z: "z \<noteq> []" "z \<noteq> ''.''"
    by (auto simp: stack_ok_def)
  have "split_slash (render a t S) = split_slash (render a False (X @ [z]))"
    using assms(3) by simp
  then have eq: "(if S = [] then (if a then [[], []] else if t then [''.'', []] else [''.''])
       else (if a then [[]] else []) @ S @ (if t then [[]] else []))
     = (if a then [[]] else []) @ X @ [z]"
    by (simp add: split_slash_render[OF assms(1)] split_slash_render[OF assms(2)])
  show ?thesis
  proof (cases "S = []")
    case True
    with eq z show ?thesis
      by (cases a; cases t; cases X; simp)
  next
    case False
    with eq have "S @ (if t then [[]] else []) = X @ [z]"
      by (cases a; simp)
    with z show ?thesis
      by (cases t; simp)
  qed
qed

lemma render_inj_snoc:
  assumes "stack_ok (X @ [y])" and "stack_ok (X @ [z])"
    and "render a False (X @ [y]) = render a False (X @ [z])"
  shows "y = z"
  using render_eq_snoc[OF assms] by simp

text \<open>The suffix that makes the temporary path: a dot and the process id.\<close>

definition pid_suffix :: "nat \<Rightarrow> string" where
  "pid_suffix p = ''.'' @ string_of_nat p"

lemma digit_char_not_slash: "d < 10 \<Longrightarrow> digit_char d \<noteq> CHR ''/''"
proof
  assume "d < 10" and "digit_char d = CHR ''/''"
  then have "(of_char (digit_char d) :: nat) = of_char CHR ''/''" by simp
  with \<open>d < 10\<close> show False by (simp add: of_char_digit_char)
qed

lemma digit_char_not_dot: "d < 10 \<Longrightarrow> digit_char d \<noteq> CHR ''.''"
proof
  assume "d < 10" and "digit_char d = CHR ''.''"
  then have "(of_char (digit_char d) :: nat) = of_char CHR ''.''" by simp
  with \<open>d < 10\<close> show False by (simp add: of_char_digit_char)
qed

lemma string_of_nat_no_slash: "CHR ''/'' \<notin> set (string_of_nat n)"
  using string_of_nat_digits[of "CHR ''/''" n] digit_char_not_slash by metis

lemma string_of_nat_no_dot: "CHR ''.'' \<notin> set (string_of_nat n)"
  using string_of_nat_digits[of "CHR ''.''" n] digit_char_not_dot by metis

lemma pid_suffix_no_slash: "CHR ''/'' \<notin> set (pid_suffix p)"
  by (simp add: pid_suffix_def string_of_nat_no_slash)

lemma pid_suffix_last: "last (pid_suffix p) \<noteq> CHR ''.''" "last (pid_suffix p) \<noteq> CHR ''/''"
proof -
  have "last (pid_suffix p) \<in> set (string_of_nat p)"
    using string_of_nat_not_Nil[of p] by (simp add: pid_suffix_def)
  then show "last (pid_suffix p) \<noteq> CHR ''.''" "last (pid_suffix p) \<noteq> CHR ''/''"
    using string_of_nat_no_dot string_of_nat_no_slash by metis+
qed

lemma pid_suffix_not_Nil: "pid_suffix p \<noteq> []"
  by (simp add: pid_suffix_def)

lemma pid_suffix_inj: "pid_suffix p = pid_suffix q \<Longrightarrow> p = q"
  by (simp add: pid_suffix_def string_of_nat_inj)

text \<open>A component that ends like the temporary path or the error path is an ordinary one.\<close>

lemma ordinary_component:
  assumes "v \<noteq> []" and "last v \<noteq> CHR ''.''"
  shows "s @ v \<noteq> []" "s @ v \<noteq> ''.''" "s @ v \<noteq> ''..''"
proof -
  show "s @ v \<noteq> []" using assms(1) by simp
  have "last (s @ v) \<noteq> CHR ''.''" using assms by simp
  then show "s @ v \<noteq> ''.''" "s @ v \<noteq> ''..''" by auto
qed

text \<open>
  The text in front of the target path in the joined arguments of the temporary path: the
  root, if it is not empty, and the cache folder.
\<close>

definition cache_prefix :: "loader \<Rightarrow> string" where
  "cache_prefix l =
     (if root (options l) = [] then [] else root (options l) @ ''/'') @ ''.observablehq/cache/''"

definition cache_absolute :: "loader \<Rightarrow> bool" where
  "cache_absolute l = (hd (cache_prefix l) = CHR ''/'')"

text \<open>
  The components kept in front of the last component of the target path, and that last
  component.
\<close>

definition cache_stack :: "loader \<Rightarrow> string list" where
  "cache_stack l =
     foldl (norm_step (\<not> cache_absolute l)) []
       (butlast (split_slash (cache_prefix l @ targetPath (options l))))"

definition cache_last :: "loader \<Rightarrow> string" where
  "cache_last l = last (split_slash (cache_prefix l @ targetPath (options l)))"

lemma cache_stack_ok: "stack_ok (cache_stack l)"
  unfolding cache_stack_def
  by (rule stack_ok_foldl[OF stack_ok_Nil]) (auto dest: in_set_butlastD split_slash_no_slash)

lemma cache_last_no_slash: "CHR ''/'' \<notin> set (cache_last l)"
  unfolding cache_last_def
  using split_slash_no_slash[of _ "cache_prefix l @ targetPath (options l)"]
    split_slash_not_Nil[of "cache_prefix l @ targetPath (options l)"]
  by (meson last_in_set)

lemma cache_prefix_not_Nil: "cache_prefix l \<noteq> []"
  by (simp add: cache_prefix_def)

text \<open>
  Any path made of the cache prefix, the target path and a suffix that holds no slash and
  ends like the temporary path is written from the kept components and the last component
  with the suffix.
\<close>

lemma suffixed_path:
  assumes "v \<noteq> []" and "CHR ''/'' \<notin> set v" and "last v \<noteq> CHR ''.''" and "last v \<noteq> CHR ''/''"
  shows "join [root (options l), ''.observablehq'', ''cache'', targetPath (options l) @ v]
           = render (cache_absolute l) False (cache_stack l @ [cache_last l @ v])"
proof -
  let ?P = "cache_prefix l" and ?t = "targetPath (options l)"
  let ?b = "\<not> cache_absolute l"
  have joined: "join_slash (filter (\<lambda>a. a \<noteq> [])
      [root (options l), ''.observablehq'', ''cache'', ?t @ v]) = ?P @ ?t @ v"
    using assms(1) by (simp add: cache_prefix_def)
  have ne: "?P @ ?t @ v \<noteq> []" using assms(1) by simp
  have hd: "hd (?P @ ?t @ v) = hd ?P"
    using cache_prefix_not_Nil by simp
  have lst: "last (?P @ ?t @ v) = last v"
    using assms(1) by simp
  have sp: "split_slash (?P @ ?t @ v)
      = butlast (split_slash (?P @ ?t)) @ [cache_last l @ v]"
    using split_slash_snoc[OF assms(2), of "?P @ ?t"] by (simp add: cache_last_def)
  have "foldl (norm_step ?b) [] (split_slash (?P @ ?t @ v))
      = norm_step ?b (cache_stack l) (cache_last l @ v)"
    unfolding sp by (simp add: cache_stack_def)
  also have "\<dots> = cache_stack l @ [cache_last l @ v]"
    using ordinary_component[OF assms(1,3)] by (intro norm_step_normal)
  finally have st: "foldl (norm_step ?b) [] (split_slash (?P @ ?t @ v))
      = cache_stack l @ [cache_last l @ v]" .
  have "join [root (options l), ''.observablehq'', ''cache'', ?t @ v]
      = normalize_path (?P @ ?t @ v)"
    unfolding join_def joined Let_def using assms(1) by simp
  also have "\<dots> = render (hd (?P @ ?t @ v) = CHR ''/'') (last (?P @ ?t @ v) = CHR ''/'')
      (foldl (norm_step (hd (?P @ ?t @ v) \<noteq> CHR ''/'')) [] (split_slash (?P @ ?t @ v)))"
    using ne by (rule normalize_path_render)
  also have "\<dots> = render (cache_absolute l) False (cache_stack l @ [cache_last l @ v])"
    unfolding hd lst using st assms(4) by (simp add: cache_absolute_def)
  finally show ?thesis .
qed

lemma suffixed_stack_ok:
  assumes "v \<noteq> []" and "CHR ''/'' \<notin> set v" and "last v \<noteq> CHR ''.''"
  shows "stack_ok (cache_stack l @ [cache_last l @ v])"
  using cache_stack_ok[of l] cache_last_no_slash[of l] assms(2) ordinary_component[OF assms(1,3)]
  by (auto simp: stack_ok_def)

lemma tempPath_render:
  "tempPath p l = render (cache_absolute l) False (cache_stack l @ [cache_last l @ pid_suffix p])"
  unfolding tempPath_def
  using suffixed_path[OF pid_suffix_not_Nil pid_suffix_no_slash pid_suffix_last(1) pid_suffix_last(2)]
  by (simp add: pid_suffix_def)



text \<open>
  The cache path: \<open>join(root, join(".observablehq", "cache", targetPath))\<close> keeps the
  components of the prefix and the target path.
\<close>

lemma last_render_relative:
  assumes "stack_ok S"
  shows "(last (render False t S) = CHR ''/'') = t"
proof (cases "S = []")
  case True
  then show ?thesis by (simp add: render_def)
next
  case False
  with assms have l: "last S \<noteq> []" "CHR ''/'' \<notin> set (last S)"
    by (auto simp: stack_ok_def)
  have ne: "join_slash S \<noteq> []"
    using False l(1) by (rule join_slash_last_not_Nil)
  have "last (join_slash S) = last (last S)"
    using False l(1) by (rule last_join_slash)
  moreover have "last (last S) \<in> set (last S)"
    using l(1) by simp
  ultimately have "last (join_slash S) \<noteq> CHR ''/''"
    using l(2) by metis
  with False ne show ?thesis by (simp add: render_def)
qed

definition cache_trailing :: "loader \<Rightarrow> bool" where
  "cache_trailing l =
     (targetPath (options l) \<noteq> [] \<and> last (targetPath (options l)) = CHR ''/'')"

lemma cachePath_render_exact:
  "cachePath l
     = render (cache_absolute l) (cache_trailing l)
         (norm_step (\<not> cache_absolute l) (cache_stack l) (cache_last l))"
proof -
  let ?r = "root (options l)" and ?t = "targetPath (options l)"
  let ?P = "cache_prefix l"
  let ?b = "\<not> cache_absolute l"
  let ?jo = "''.observablehq/cache'' @ (if ?t = [] then [] else CHR ''/'' # ?t)"
  let ?O = "foldl (norm_step True) [] (split_slash ?jo)"
  let ?R = "if ?r = [] then [] else ?r @ ''/''"
  have jo: "join_slash (filter (\<lambda>a. a \<noteq> []) [''.observablehq'', ''cache'', ?t]) = ?jo"
    by simp
  have jo_ne: "?jo \<noteq> []" by simp
  have hd_jo: "hd ?jo = CHR ''.''" by simp
  have O_ok: "stack_ok ?O"
    by (intro stack_ok_split stack_ok_Nil)
  define tr where "tr = (last ?jo = CHR ''/'')"
  have tr: "tr = cache_trailing l"
    by (simp add: tr_def cache_trailing_def)
  have out: "outputPath l = render False tr ?O"
  proof -
    have "outputPath l = normalize_path ?jo"
      unfolding outputPath_def join_def jo Let_def using jo_ne by simp
    also have "\<dots> = render (hd ?jo = CHR ''/'') (last ?jo = CHR ''/'')
        (foldl (norm_step (hd ?jo \<noteq> CHR ''/'')) [] (split_slash ?jo))"
      using jo_ne by (rule normalize_path_render)
    finally show "outputPath l = render False tr ?O"
      unfolding hd_jo tr_def by simp
  qed
  have last_out: "(last (outputPath l) = CHR ''/'') = cache_trailing l"
    unfolding out last_render_relative[OF O_ok] by (rule tr)
  have out_ne: "outputPath l \<noteq> []"
    unfolding out using O_ok by (rule render_not_Nil)
  have hd_out: "hd (outputPath l) \<noteq> CHR ''/''"
    unfolding out using O_ok by (rule hd_render_relative)
  have joined: "join_slash (filter (\<lambda>a. a \<noteq> []) [?r, outputPath l]) = ?R @ outputPath l"
    using out_ne by simp
  have ne: "?R @ outputPath l \<noteq> []" using out_ne by simp
  have abs: "(hd (?R @ outputPath l) = CHR ''/'') = cache_absolute l"
    using hd_out out_ne by (auto simp: cache_absolute_def cache_prefix_def)
  have ns: "\<forall>s \<in> set (split_slash ?jo). CHR ''/'' \<notin> set s"
    by (auto dest: split_slash_no_slash)
  have fold_out: "foldl (norm_step ?b) S (split_slash (outputPath l))
      = foldl (norm_step ?b) S (split_slash ?jo)" for S
    unfolding out foldl_norm_render[OF O_ok] using ns by (rule foldl_norm_twice)
  have split_R_out: "split_slash (?R @ outputPath l)
      = (if ?r = [] then [] else split_slash ?r) @ split_slash (outputPath l)"
    using split_slash_append[of ?r "outputPath l"] by simp
  have split_R_jo: "split_slash (?R @ ?jo)
      = (if ?r = [] then [] else split_slash ?r) @ split_slash ?jo"
    using split_slash_append[of ?r ?jo] by simp
  have stack1: "foldl (norm_step ?b) [] (split_slash (?R @ outputPath l))
      = foldl (norm_step ?b) [] (split_slash (?R @ ?jo))"
    unfolding split_R_out split_R_jo by (simp add: fold_out)
  have stack2: "foldl (norm_step ?b) [] (split_slash (?R @ ?jo))
      = foldl (norm_step ?b) [] (split_slash (?P @ ?t))"
  proof (cases "?t = []")
    case True
    have "?P @ ?t = (?R @ ''.observablehq/cache'') @ CHR ''/'' # []"
      using True by (simp add: cache_prefix_def)
    then have "split_slash (?P @ ?t) = split_slash (?R @ ''.observablehq/cache'') @ [[]]"
      using split_slash_append[of "?R @ ''.observablehq/cache''" "[]"] by simp
    moreover have "?R @ ?jo = ?R @ ''.observablehq/cache''"
      using True by simp
    ultimately show ?thesis
      by (simp add: norm_step_empty)
  next
    case False
    then have "?R @ ?jo = ?P @ ?t"
      by (simp add: cache_prefix_def)
    then show ?thesis by simp
  qed
  have stack3: "foldl (norm_step ?b) [] (split_slash (?P @ ?t))
      = norm_step ?b (cache_stack l) (cache_last l)"
  proof -
    have "split_slash (?P @ ?t)
        = butlast (split_slash (?P @ ?t)) @ [last (split_slash (?P @ ?t))]"
      using split_slash_not_Nil by simp
    then have "foldl (norm_step ?b) [] (split_slash (?P @ ?t))
        = foldl (norm_step ?b) [] (butlast (split_slash (?P @ ?t)) @ [last (split_slash (?P @ ?t))])"
      by simp
    then show ?thesis
      by (simp add: cache_stack_def cache_last_def)
  qed
  have "cachePath l = normalize_path (?R @ outputPath l)"
    unfolding cachePath_def join_def joined Let_def using out_ne by simp
  also have "\<dots> = render (hd (?R @ outputPath l) = CHR ''/'') (last (?R @ outputPath l) = CHR ''/'')
      (foldl (norm_step (hd (?R @ outputPath l) \<noteq> CHR ''/'')) [] (split_slash (?R @ outputPath l)))"
    using ne by (rule normalize_path_render)
  also have "\<dots> = render (cache_absolute l) (last (?R @ outputPath l) = CHR ''/'')
      (norm_step ?b (cache_stack l) (cache_last l))"
    unfolding abs using stack1 stack2 stack3 by simp
  also have "(last (?R @ outputPath l) = CHR ''/'') = cache_trailing l"
    using out_ne last_out by simp
  finally show ?thesis .
qed


text \<open>
  The last component is the text after the last slash of the target path. When it is an
  ordinary name, the temporary path is the cache path followed by a dot and the process
  id.
\<close>

lemma cache_last_target: "cache_last l = last (split_slash (targetPath (options l)))"
proof -
  let ?R = "if root (options l) = [] then [] else root (options l) @ ''/''"
  have "cache_prefix l @ targetPath (options l)
      = (?R @ ''.observablehq/cache'') @ CHR ''/'' # targetPath (options l)"
    by (simp add: cache_prefix_def)
  then have "split_slash (cache_prefix l @ targetPath (options l))
      = split_slash (?R @ ''.observablehq/cache'') @ split_slash (targetPath (options l))"
    using split_slash_append[of "?R @ ''.observablehq/cache''" "targetPath (options l)"]
    by simp
  then show ?thesis
    using split_slash_not_Nil[of "targetPath (options l)"] by (simp add: cache_last_def)
qed

lemma cache_trailing_last: "cache_trailing l \<Longrightarrow> cache_last l = []"
proof -
  assume "cache_trailing l"
  then obtain x where "targetPath (options l) = x @ ''/''"
    unfolding cache_trailing_def by (metis append_butlast_last_id)
  then have "split_slash (targetPath (options l)) = split_slash x @ [[]]"
    using split_slash_append[of x "[]"] by simp
  then show ?thesis by (simp add: cache_last_target)
qed

lemma tempPath_suffix:
  assumes "cache_last l \<noteq> []" and "cache_last l \<noteq> ''.''" and "cache_last l \<noteq> ''..''"
  shows "tempPath p l = cachePath l @ pid_suffix p"
proof -
  have nt: "\<not> cache_trailing l"
    using assms(1) cache_trailing_last by blast
  have "cachePath l = render (cache_absolute l) False (cache_stack l @ [cache_last l])"
    unfolding cachePath_render_exact using nt assms by (simp add: norm_step_normal)
  then have "cachePath l @ pid_suffix p
      = render (cache_absolute l) False (cache_stack l @ [cache_last l @ pid_suffix p])"
    using join_slash_snoc_append[of "cache_stack l" "cache_last l" "pid_suffix p"]
    by (simp add: render_def)
  then show ?thesis by (simp add: tempPath_render)
qed





lemma tempPath_inj: "tempPath p l = tempPath q l \<Longrightarrow> p = q"
proof -
  assume eq: "tempPath p l = tempPath q l"
  have ok: "stack_ok (cache_stack l @ [cache_last l @ pid_suffix p])"
    using pid_suffix_not_Nil pid_suffix_no_slash pid_suffix_last(1) by (rule suffixed_stack_ok)
  have ok': "stack_ok (cache_stack l @ [cache_last l @ pid_suffix q])"
    using pid_suffix_not_Nil pid_suffix_no_slash pid_suffix_last(1) by (rule suffixed_stack_ok)
  have "cache_last l @ pid_suffix p = cache_last l @ pid_suffix q"
    using render_inj_snoc[OF ok ok'] eq tempPath_render by simp
  then show "p = q"
    using pid_suffix_inj by simp
qed

lemma errorPath_inj: "errorPath p l = errorPath q l \<Longrightarrow> p = q"
  using tempPath_inj by (simp add: errorPath_def)
section \<open>Facts about the body of load\<close>


lemma body_set_commands:
  "body c r t (w\<lparr>commands := cs\<rparr>)
     = (fst (body c r t w), (snd (body c r t w))\<lparr>commands := cs\<rparr>)"
  by (simp add: body_def Let_def split: pc.splits option.splits)

text \<open>
  Resuming one promise \<open>n\<close> times in a row is running its body \<open>n\<close> segments on its
  own state.
\<close>

definition segments :: "nat \<Rightarrow> exec_result \<Rightarrow> nat \<Rightarrow> command \<times> process \<Rightarrow> command \<times> process" where
  "segments c r n = (\<lambda>(t, w). body c r t w) ^^ n"

lemma segments_0: "segments c r 0 tw = tw"
  by (simp add: segments_def)

lemma segments_Suc: "segments c r (Suc n) (t, w) = segments c r n (body c r t w)"
  by (simp add: segments_def funpow_swap1)

lemma segments_Suc': "segments c r (Suc n) tw = body c r (fst (segments c r n tw)) (snd (segments c r n tw))"
  by (simp add: segments_def case_prod_beta)

lemma segments_add: "segments c r (m + n) tw = segments c r m (segments c r n tw)"
  by (simp add: segments_def funpow_add)

lemma resume_segments:
  assumes "c < length (commands w)"
  shows "(resume c r ^^ n) w =
           (snd (segments c r n (commands w ! c, w)))
             \<lparr>commands := (commands w)[c := fst (segments c r n (commands w ! c, w))]\<rparr>"
proof (induction n)
  case 0
  then show ?case by (simp add: segments_0)
next
  case (Suc n)
  define t' where "t' = fst (segments c r n (commands w ! c, w))"
  define w' where "w' = snd (segments c r n (commands w ! c, w))"
  have "(resume c r ^^ Suc n) w = resume c r (w'\<lparr>commands := (commands w)[c := t']\<rparr>)"
    using Suc by (simp add: t'_def w'_def)
  also have "\<dots> = (snd (body c r t' w'))\<lparr>commands := (commands w)[c := fst (body c r t' w')]\<rparr>"
    using assms by (simp add: resume_def body_set_commands)
  also have "body c r t' w' = segments c r (Suc n) (commands w ! c, w)"
    by (simp add: segments_Suc' t'_def w'_def)
  finally show ?case .
qed

lemma body_AwaitStatLoader:
  "awaiting t = AwaitStatLoader \<Longrightarrow>
   body c r t w
     = (t\<lparr>awaiting := AwaitStatCache,
          loaderStat := maybeStat (files w) (path (options (this t)))\<rparr>, w)"
  by (simp add: body_def Let_def)

lemma body_AwaitStatCache:
  "awaiting t = AwaitStatCache \<Longrightarrow>
   body c r t w =
     (case maybeStat (files w) (cachePath (this t)) of
        None \<Rightarrow> (t\<lparr>awaiting := AwaitStatError\<rparr>, w)
      | Some cacheMtime \<Rightarrow>
          (case loaderStat t of
             None \<Rightarrow> (t\<lparr>awaiting := Settled, settled := Some (Inl TypeError)\<rparr>, w)
           | Some loaderMtime \<Rightarrow>
               if cacheMtime < loaderMtime
               then (if useStale (options (this t))
                     then (t\<lparr>awaiting := Settled, settled := Some (Inr (outputPath (this t)))\<rparr>, w)
                     else (t\<lparr>awaiting := AwaitStatError\<rparr>, w))
               else (t\<lparr>awaiting := Settled, settled := Some (Inr (outputPath (this t)))\<rparr>, w)))"
  by (simp add: body_def Let_def)

lemma body_AwaitStatError:
  "awaiting t = AwaitStatError \<Longrightarrow>
   body c r t w =
     (case maybeStat (files w) (errorPath (pid w) (this t)) of
        None \<Rightarrow> (t\<lparr>awaiting := AwaitPrepareTemp\<rparr>, w)
      | Some errorMtime \<Rightarrow>
          (case loaderStat t of
             None \<Rightarrow> (t\<lparr>awaiting := Settled, settled := Some (Inl TypeError)\<rparr>, w)
           | Some loaderMtime \<Rightarrow>
               if errorMtime > loaderMtime \<and> errorMtime > of_int (- 1000 + now w)
               then (t\<lparr>awaiting := Settled,
                       settled := Some (Inl (Error ''loader skipped due to recent error''
                         None))\<rparr>, w)
               else (t\<lparr>awaiting := AwaitUnlink\<rparr>, w)))"
  by (simp add: body_def Let_def)

lemma body_AwaitUnlink:
  "awaiting t = AwaitUnlink \<Longrightarrow>
   body c r t w
     = (t\<lparr>awaiting := AwaitPrepareTemp\<rparr>,
        w\<lparr>files := (files w)(errorPath (pid w) (this t) := None)\<rparr>)"
  by (simp add: body_def Let_def)

lemma body_AwaitPrepareTemp:
  "awaiting t = AwaitPrepareTemp \<Longrightarrow> body c r t w = (t\<lparr>awaiting := AwaitPrepareCache\<rparr>, w)"
  by (simp add: body_def Let_def)

lemma body_AwaitPrepareCache:
  "awaiting t = AwaitPrepareCache \<Longrightarrow> body c r t w = (t\<lparr>awaiting := AwaitOpen\<rparr>, w)"
  by (simp add: body_def Let_def)

lemma body_AwaitOpen:
  "awaiting t = AwaitOpen \<Longrightarrow>
   body c r t w
     = (t\<lparr>awaiting := AwaitExec\<rparr>,
        w\<lparr>files := (files w)(tempPath (pid w) (this t)
               \<mapsto> \<lparr>node_mtimeMs = of_int (now w), node_data = []\<rparr>),
          openFds := c # openFds w,
          execs := execs w @ [c]\<rparr>)"
  by (simp add: body_def Let_def)

lemma body_AwaitExec:
  "awaiting t = AwaitExec \<Longrightarrow>
   body c r t w
     = (t\<lparr>awaiting := (case thrown r of None \<Rightarrow> AwaitRenameCache | Some e \<Rightarrow> AwaitRenameError e)\<rparr>,
        w\<lparr>files := (files w)(tempPath (pid w) (this t)
               \<mapsto> \<lparr>node_mtimeMs = of_int (now w), node_data = piped r\<rparr>)\<rparr>)"
  by (simp add: body_def Let_def)

lemma body_AwaitRenameCache:
  "awaiting t = AwaitRenameCache \<Longrightarrow>
   body c r t w =
     (case files w (tempPath (pid w) (this t)) of
        None \<Rightarrow> (t\<lparr>awaiting := AwaitRenameError rename_enoent\<rparr>, w)
      | Some f \<Rightarrow>
          (t\<lparr>awaiting := AwaitClose None\<rparr>,
           w\<lparr>files := (files w)(tempPath (pid w) (this t) := None, cachePath (this t) \<mapsto> f)\<rparr>))"
  by (simp add: body_def Let_def)

lemma body_AwaitRenameError:
  "awaiting t = AwaitRenameError e \<Longrightarrow>
   body c r t w =
     (case files w (tempPath (pid w) (this t)) of
        None \<Rightarrow> (t\<lparr>awaiting := AwaitClose (Some rename_enoent)\<rparr>, w)
      | Some f \<Rightarrow>
          (t\<lparr>awaiting := AwaitClose (Some e)\<rparr>,
           w\<lparr>files := (files w)(tempPath (pid w) (this t) := None,
                  errorPath (pid w) (this t) \<mapsto> f)\<rparr>))"
  by (simp add: body_def Let_def)

lemma body_AwaitClose:
  "awaiting t = AwaitClose e \<Longrightarrow>
   body c r t w
     = (t\<lparr>awaiting := Settled,
          settled := Some (case e of None \<Rightarrow> Inr (outputPath (this t)) | Some e' \<Rightarrow> Inl e')\<rparr>,
        w\<lparr>openFds := remove1 c (openFds w)\<rparr>)"
  by (simp add: body_def Let_def)

lemma body_Settled:
  "awaiting t = Settled \<Longrightarrow>
   body c r t w
     = (t\<lparr>awaiting := Cleared\<rparr>, w\<lparr>runningCommands := (runningCommands w)(key_of (this t) := None)\<rparr>)"
  by (simp add: body_def Let_def)

lemma body_Cleared: "awaiting t = Cleared \<Longrightarrow> body c r t w = (t, w)"
  by (simp add: body_def Let_def)

lemmas body_at =
  body_AwaitStatLoader body_AwaitStatCache body_AwaitStatError body_AwaitUnlink
  body_AwaitPrepareTemp body_AwaitPrepareCache body_AwaitOpen body_AwaitExec
  body_AwaitRenameCache body_AwaitRenameError body_AwaitClose body_Settled body_Cleared

lemma segments_Cleared: "awaiting t = Cleared \<Longrightarrow> segments c r n (t, w) = (t, w)"
  by (induction n) (simp_all add: segments_0 segments_Suc body_Cleared)

lemma body_this: "this (fst (body c r t w)) = this t"
  by (simp add: body_def Let_def split: pc.splits option.splits)



lemma body_promises: "promises (snd (body c r t w)) = promises w"
  by (simp add: body_def Let_def split: pc.splits option.splits)

lemma load_key: "load l w = (p, w') \<Longrightarrow> runningCommands w' (key_of l) = Some (promises w' ! p)"
  by (auto simp: load_def key_of_def Let_def split: option.splits)

lemma load_registered:
  "runningCommands w (key_of l) = Some c \<Longrightarrow>
   load l w = (length (promises w), w\<lparr>promises := promises w @ [c]\<rparr>)"
  by (simp add: load_def key_of_def)

lemma load_fresh:
  "runningCommands w (key_of l) = None \<Longrightarrow>
   load l w = (length (promises w),
     w\<lparr>commands := commands w @
          [\<lparr>this = l, awaiting = AwaitStatLoader, loaderStat = None, settled = None\<rparr>],
       runningCommands := (runningCommands w)(key_of l \<mapsto> length (commands w)),
       promises := promises w @ [length (commands w)]\<rparr>)"
  by (simp add: load_def key_of_def Let_def)

text \<open>The body neither reads nor changes the promises that \<open>load\<close> has returned.\<close>

lemma body_set_promises:
  "body c r t (w\<lparr>promises := ps\<rparr>)
     = (fst (body c r t w), (snd (body c r t w))\<lparr>promises := ps\<rparr>)"
  by (simp add: body_def Let_def split: pc.splits option.splits)

lemma resume_set_promises: "resume c r (w\<lparr>promises := ps\<rparr>) = (resume c r w)\<lparr>promises := ps\<rparr>"
  by (simp add: resume_def body_set_promises split: prod.splits)

lemma resume_funpow_set_promises:
  "(resume c r ^^ n) (w\<lparr>promises := ps\<rparr>) = ((resume c r ^^ n) w)\<lparr>promises := ps\<rparr>"
  by (induction n) (simp_all add: resume_set_promises)

lemma resume_promises: "promises (resume c r w) = promises w"
  using body_promises[of c r "commands w ! c" w]
  by (cases "body c r (commands w ! c) w") (auto simp: resume_def)

lemma resume_funpow_promises: "promises ((resume c r ^^ n) w) = promises w"
  by (induction n) (simp_all add: resume_promises)

lemma run_resumes: "run (replicate n (Resume c r)) w = (resume c r ^^ n) w"
  unfolding run_def by (induction n arbitrary: w) (simp_all add: funpow_swap1)




section \<open>An example loader\<close>

text \<open>
  The loader of the spec's example: \<open>data/items.csv.py\<close> under the root \<open>src\<close>
  produces \<open>data/items.csv\<close>; the process has the id 42 and its clock reads 5000.
\<close>

definition loader_items :: loader where
  "loader_items =
     CommandLoader
       \<lparr>root = ''src'', path = ''src/data/items.csv.py'', targetPath = ''data/items.csv'',
        useStale = False\<rparr>
       ''python3'' [''src/data/items.csv.py'']"

definition loader_items_stale :: loader where
  "loader_items_stale =
     CommandLoader
       \<lparr>root = ''src'', path = ''src/data/items.csv.py'', targetPath = ''data/items.csv'',
        useStale = True\<rparr>
       ''python3'' [''src/data/items.csv.py'']"

definition exec_ok :: exec_result where
  "exec_ok = \<lparr>piped = ''a,b'', resumed = [], thrown = None\<rparr>"


text \<open>The loader source alone, written at time 100.\<close>

definition files_source :: "string \<rightharpoonup> file_node" where
  "files_source = [''src/data/items.csv.py'' \<mapsto> \<lparr>node_mtimeMs = 100, node_data = ''print''\<rparr>]"

text \<open>The loader source and a cache file written after it, at time 200.\<close>

definition files_fresh :: "string \<rightharpoonup> file_node" where
  "files_fresh =
     files_source(''src/.observablehq/cache/data/items.csv''
       \<mapsto> \<lparr>node_mtimeMs = 200, node_data = ''old''\<rparr>)"


text \<open>A cache file and no loader source.\<close>

definition files_orphan :: "string \<rightharpoonup> file_node" where
  "files_orphan =
     [''src/.observablehq/cache/data/items.csv'' \<mapsto> \<lparr>node_mtimeMs = 200, node_data = ''old''\<rparr>]"


text \<open>An error marker of process 42 and nothing else: neither loader source nor cache file.\<close>

definition files_marker_orphan :: "string \<rightharpoonup> file_node" where
  "files_marker_orphan =
     [''src/.observablehq/cache/data/items.csv.42.err''
        \<mapsto> \<lparr>node_mtimeMs = 200, node_data = ''partial''\<rparr>]"

text \<open>One call of \<open>load\<close> with the command it returns awaited alone.\<close>

definition load_alone :: "exec_result \<Rightarrow> loader \<Rightarrow> process \<Rightarrow> process" where
  "load_alone r l w =
     (case load l w of (p, w') \<Rightarrow> await_command r (promises w' ! p) w')"
section \<open>One load awaited alone\<close>

text \<open>
  The two decisions of the body, read off the files at the start: whether the freshness
  check leads to the execution phase, and whether the cooldown check rejects the call.
\<close>

definition must_execute :: "loader \<Rightarrow> process \<Rightarrow> bool" where
  "must_execute l w =
     (case maybeStat (files w) (cachePath l) of
        None \<Rightarrow> True
      | Some cacheMtime \<Rightarrow>
          (case maybeStat (files w) (path (options l)) of
             None \<Rightarrow> False
           | Some loaderMtime \<Rightarrow> cacheMtime < loaderMtime \<and> \<not> useStale (options l)))"

definition recently_failed :: "loader \<Rightarrow> process \<Rightarrow> bool" where
  "recently_failed l w =
     (case maybeStat (files w) (errorPath (pid w) l) of
        None \<Rightarrow> False
      | Some errorMtime \<Rightarrow>
          (case maybeStat (files w) (path (options l)) of
             None \<Rightarrow> False
           | Some loaderMtime \<Rightarrow> errorMtime > loaderMtime \<and> errorMtime > of_int (- 1000 + now w)))"

definition marker_without_source :: "loader \<Rightarrow> process \<Rightarrow> bool" where
  "marker_without_source l w =
     (maybeStat (files w) (errorPath (pid w) l) \<noteq> None \<and>
      maybeStat (files w) (path (options l)) = None)"

lemmas segments_unfold = eval_nat_numeral segments_Suc segments_0 body_at

lemma segments_returns_cache:
  assumes "awaiting t = AwaitStatLoader"
    and "maybeStat (files w) (cachePath (this t)) = Some cm"
    and "maybeStat (files w) (path (options (this t))) = Some lm"
    and "\<not> cm < lm \<or> useStale (options (this t))"
  shows "segments c r 12 (t, w)
           = (t\<lparr>awaiting := Cleared, loaderStat := Some lm,
                settled := Some (Inr (outputPath (this t)))\<rparr>,
              w\<lparr>runningCommands := (runningCommands w)(key_of (this t) := None)\<rparr>)"
  using assms by (auto simp: segments_unfold)

lemma segments_type_error_cache:
  assumes "awaiting t = AwaitStatLoader"
    and "maybeStat (files w) (cachePath (this t)) = Some cm"
    and "maybeStat (files w) (path (options (this t))) = None"
  shows "segments c r 12 (t, w)
           = (t\<lparr>awaiting := Cleared, loaderStat := None, settled := Some (Inl TypeError)\<rparr>,
              w\<lparr>runningCommands := (runningCommands w)(key_of (this t) := None)\<rparr>)"
  using assms by (simp add: segments_unfold)

lemma segments_to_cooldown:
  assumes "awaiting t = AwaitStatLoader" and "must_execute (this t) w"
  shows "segments c r 2 (t, w)
           = (t\<lparr>awaiting := AwaitStatError,
                loaderStat := maybeStat (files w) (path (options (this t)))\<rparr>, w)"
  using assms
  by (auto simp: segments_unfold must_execute_def split: option.splits)

lemma segments_recently_failed:
  assumes "awaiting t = AwaitStatError"
    and "loaderStat t = maybeStat (files w) (path (options (this t)))"
    and "recently_failed (this t) w"
  shows "segments c r 10 (t, w)
           = (t\<lparr>awaiting := Cleared,
                settled := Some (Inl (Error ''loader skipped due to recent error'' None))\<rparr>,
              w\<lparr>runningCommands := (runningCommands w)(key_of (this t) := None)\<rparr>)"
  using assms
  by (auto simp: segments_unfold recently_failed_def split: option.splits)

lemma segments_type_error_marker:
  assumes "awaiting t = AwaitStatError"
    and "loaderStat t = maybeStat (files w) (path (options (this t)))"
    and "marker_without_source (this t) w"
  shows "segments c r 10 (t, w)
           = (t\<lparr>awaiting := Cleared, settled := Some (Inl TypeError)\<rparr>,
              w\<lparr>runningCommands := (runningCommands w)(key_of (this t) := None)\<rparr>)"
  using assms
  by (auto simp: segments_unfold marker_without_source_def split: option.splits)

lemma segments_to_prepare:
  assumes "awaiting t = AwaitStatError"
    and "loaderStat t = maybeStat (files w) (path (options (this t)))"
    and "\<not> recently_failed (this t) w" and "\<not> marker_without_source (this t) w"
  shows "\<exists>k \<le> 2. segments c r k (t, w)
           = (t\<lparr>awaiting := AwaitPrepareTemp\<rparr>,
              w\<lparr>files := (files w)(errorPath (pid w) (this t) := None)\<rparr>)"
proof (cases "maybeStat (files w) (errorPath (pid w) (this t))")
  case None
  then have "files w (errorPath (pid w) (this t)) = None"
    by (simp add: maybeStat_def)
  then have "(files w)(errorPath (pid w) (this t) := None) = files w"
    by (simp add: fun_upd_idem)
  with None assms(1) have "segments c r 1 (t, w)
           = (t\<lparr>awaiting := AwaitPrepareTemp\<rparr>,
              w\<lparr>files := (files w)(errorPath (pid w) (this t) := None)\<rparr>)"
    by (simp add: segments_unfold)
  then show ?thesis by (intro exI[of _ 1]) simp
next
  case (Some em)
  with assms have "segments c r 2 (t, w)
           = (t\<lparr>awaiting := AwaitPrepareTemp\<rparr>,
              w\<lparr>files := (files w)(errorPath (pid w) (this t) := None)\<rparr>)"
    by (auto simp: segments_unfold recently_failed_def marker_without_source_def
        split: option.splits)
  then show ?thesis by (intro exI[of _ 2]) simp
qed

lemma segments_exec_ok:
  assumes "awaiting t = AwaitPrepareTemp" and "thrown r = None"
  shows "segments c r 7 (t, w)
           = (t\<lparr>awaiting := Cleared, settled := Some (Inr (outputPath (this t)))\<rparr>,
              w\<lparr>files := (files w)(tempPath (pid w) (this t) := None,
                     cachePath (this t) \<mapsto> \<lparr>node_mtimeMs = of_int (now w), node_data = piped r\<rparr>),
                execs := execs w @ [c],
                runningCommands := (runningCommands w)(key_of (this t) := None)\<rparr>)"
  using assms by (simp add: segments_unfold)

lemma segments_exec_failed:
  assumes "awaiting t = AwaitPrepareTemp" and "thrown r = Some e"
  shows "segments c r 7 (t, w)
           = (t\<lparr>awaiting := Cleared, settled := Some (Inl e)\<rparr>,
              w\<lparr>files := (files w)(tempPath (pid w) (this t) := None,
                     errorPath (pid w) (this t)
                       \<mapsto> \<lparr>node_mtimeMs = of_int (now w), node_data = piped r\<rparr>),
                execs := execs w @ [c],
                runningCommands := (runningCommands w)(key_of (this t) := None)\<rparr>)"
  using assms by (simp add: segments_unfold)

lemma segments_set_commands:
  "segments c r n (t, w\<lparr>commands := cs\<rparr>)
     = (fst (segments c r n (t, w)), (snd (segments c r n (t, w)))\<lparr>commands := cs\<rparr>)"
proof (induction n)
  case 0
  then show ?case by (simp add: segments_0)
next
  case (Suc n)
  show ?case
    unfolding segments_Suc'[of c r n "(t, w\<lparr>commands := cs\<rparr>)"]
      segments_Suc'[of c r n "(t, w)"] Suc
    by (simp add: body_set_commands)
qed

text \<open>The state in which \<open>load\<close> starts the body of a new promise.\<close>

definition started :: "loader \<Rightarrow> command" where
  "started l = \<lparr>this = l, awaiting = AwaitStatLoader, loaderStat = None, settled = None\<rparr>"

definition registered :: "loader \<Rightarrow> process \<Rightarrow> process" where
  "registered l w =
     w\<lparr>runningCommands := (runningCommands w)(key_of l \<mapsto> length (commands w)),
       promises := promises w @ [length (commands w)]\<rparr>"

lemma load_alone_eq:
  assumes "runningCommands w (key_of l) = None"
  shows "load_alone r l w =
           (snd (segments (length (commands w)) r 12 (started l, registered l w)))
             \<lparr>commands := commands w @
                [fst (segments (length (commands w)) r 12 (started l, registered l w))]\<rparr>"
proof -
  let ?c = "length (commands w)"
  let ?w1 = "(registered l w)\<lparr>commands := commands w @ [started l]\<rparr>"
  have ld: "load l w = (length (promises w), ?w1)"
    using assms by (simp add: load_fresh started_def registered_def)
  have "load_alone r l w = (resume ?c r ^^ 12) ?w1"
    by (simp add: load_alone_def ld await_command_def registered_def)
  also have "\<dots> = (snd (segments ?c r 12 (commands ?w1 ! ?c, ?w1)))
      \<lparr>commands := (commands ?w1)[?c := fst (segments ?c r 12 (commands ?w1 ! ?c, ?w1))]\<rparr>"
    by (rule resume_segments) simp
  also have "commands ?w1 ! ?c = started l" by simp
  also have "segments ?c r 12 (started l, ?w1)
      = (fst (segments ?c r 12 (started l, registered l w)),
         (snd (segments ?c r 12 (started l, registered l w)))
           \<lparr>commands := commands w @ [started l]\<rparr>)"
    by (rule segments_set_commands)
  finally show ?thesis by simp
qed

lemma registered_fields:
  "files (registered l w) = files w" "now (registered l w) = now w"
  "pid (registered l w) = pid w" "execs (registered l w) = execs w"
  "openFds (registered l w) = openFds w" "commands (registered l w) = commands w"
  "promises (registered l w) = promises w @ [length (commands w)]"
  by (simp_all add: registered_def)

lemma registered_decisions:
  "must_execute l' (registered l w) = must_execute l' w"
  "recently_failed l' (registered l w) = recently_failed l' w"
  "marker_without_source l' (registered l w) = marker_without_source l' w"
  by (simp_all add: must_execute_def recently_failed_def marker_without_source_def
      registered_fields cong: option.case_cong)

lemma unregistered:
  assumes "runningCommands w (key_of l) = None"
  shows "(runningCommands (registered l w))(key_of l := None) = runningCommands w"
  using assms by (auto simp: registered_def)

lemma started_fields: "this (started l) = l" "awaiting (started l) = AwaitStatLoader"
  by (simp_all add: started_def)

text \<open>
  The whole execution path in one statement: twelve segments from the start of the body,
  when the freshness check leads to execution and the cooldown check lets it pass.
\<close>

lemma segments_execute:
  assumes "awaiting t = AwaitStatLoader" and "must_execute (this t) w"
    and "\<not> recently_failed (this t) w" and "\<not> marker_without_source (this t) w"
  shows "segments c r 12 (t, w) =
     (t\<lparr>awaiting := Cleared, loaderStat := maybeStat (files w) (path (options (this t))),
         settled := Some (case thrown r of None \<Rightarrow> Inr (outputPath (this t)) | Some e \<Rightarrow> Inl e)\<rparr>,
      w\<lparr>files := (case thrown r of
             None \<Rightarrow> (files w)(errorPath (pid w) (this t) := None,
                        tempPath (pid w) (this t) := None,
                        cachePath (this t) \<mapsto> \<lparr>node_mtimeMs = of_int (now w), node_data = piped r\<rparr>)
           | Some e \<Rightarrow> (files w)(errorPath (pid w) (this t) := None,
                        tempPath (pid w) (this t) := None,
                        errorPath (pid w) (this t)
                          \<mapsto> \<lparr>node_mtimeMs = of_int (now w), node_data = piped r\<rparr>)),
        execs := execs w @ [c],
        runningCommands := (runningCommands w)(key_of (this t) := None)\<rparr>)"
proof -
  let ?t1 = "t\<lparr>awaiting := AwaitStatError,
      loaderStat := maybeStat (files w) (path (options (this t)))\<rparr>"
  let ?t2 = "?t1\<lparr>awaiting := AwaitPrepareTemp\<rparr>"
  let ?w2 = "w\<lparr>files := (files w)(errorPath (pid w) (this t) := None)\<rparr>"
  have s1: "segments c r 2 (t, w) = (?t1, w)"
    using assms(1,2) by (rule segments_to_cooldown)
  obtain k where k: "k \<le> 2" and s2: "segments c r k (?t1, w) = (?t2, ?w2)"
    using segments_to_prepare[of ?t1 w c r] assms(3,4) by auto
  obtain t3 w3 where s3: "segments c r 7 (?t2, ?w2) = (t3, w3)" and c3: "awaiting t3 = Cleared"
    and v3: "(t3, w3) =
     (t\<lparr>awaiting := Cleared, loaderStat := maybeStat (files w) (path (options (this t))),
         settled := Some (case thrown r of None \<Rightarrow> Inr (outputPath (this t)) | Some e \<Rightarrow> Inl e)\<rparr>,
      w\<lparr>files := (case thrown r of
             None \<Rightarrow> (files w)(errorPath (pid w) (this t) := None,
                        tempPath (pid w) (this t) := None,
                        cachePath (this t) \<mapsto> \<lparr>node_mtimeMs = of_int (now w), node_data = piped r\<rparr>)
           | Some e \<Rightarrow> (files w)(errorPath (pid w) (this t) := None,
                        tempPath (pid w) (this t) := None,
                        errorPath (pid w) (this t)
                          \<mapsto> \<lparr>node_mtimeMs = of_int (now w), node_data = piped r\<rparr>)),
        execs := execs w @ [c],
        runningCommands := (runningCommands w)(key_of (this t) := None)\<rparr>)"
  proof (cases "thrown r")
    case None
    from segments_exec_ok[of ?t2 r c ?w2] None that show ?thesis by simp
  next
    case (Some e)
    from segments_exec_failed[of ?t2 r e c ?w2] Some that show ?thesis by simp
  qed
  have "12 = (3 - k) + (7 + (k + 2))" using k by simp
  then have "segments c r 12 (t, w)
      = segments c r (3 - k) (segments c r 7 (segments c r k (segments c r 2 (t, w))))"
    by (metis segments_add)
  also have "\<dots> = (t3, w3)"
    by (simp only: s1 s2 s3 segments_Cleared[OF c3])
  finally show ?thesis using v3 by simp
qed

lemma segments_rejected:
  assumes "awaiting t = AwaitStatLoader" and "must_execute (this t) w"
    and "recently_failed (this t) w \<or> marker_without_source (this t) w"
  shows "segments c r 12 (t, w) =
     (t\<lparr>awaiting := Cleared, loaderStat := maybeStat (files w) (path (options (this t))),
         settled := Some (Inl (if recently_failed (this t) w
           then Error ''loader skipped due to recent error'' None else TypeError))\<rparr>,
      w\<lparr>runningCommands := (runningCommands w)(key_of (this t) := None)\<rparr>)"
proof -
  let ?t1 = "t\<lparr>awaiting := AwaitStatError,
      loaderStat := maybeStat (files w) (path (options (this t)))\<rparr>"
  have s1: "segments c r 2 (t, w) = (?t1, w)"
    using assms(1,2) by (rule segments_to_cooldown)
  have "segments c r 12 (t, w) = segments c r 10 (segments c r 2 (t, w))"
    using segments_add[of c r 10 2 "(t, w)"] by simp
  also have "\<dots> = segments c r 10 (?t1, w)" by (simp only: s1)
  finally have split: "segments c r 12 (t, w) = segments c r 10 (?t1, w)" .
  show ?thesis
  proof (cases "recently_failed (this t) w")
    case True
    from segments_recently_failed[of ?t1 w c r] True show ?thesis
      unfolding split by simp
  next
    case False
    with assms(3) have m: "marker_without_source (this t) w" by simp
    from segments_type_error_marker[of ?t1 w c r] m False show ?thesis
      unfolding split by simp
  qed
qed

text \<open>
  The same facts for \<open>load\<close> called on a key that is not registered and awaited alone:
  what the promise settles to and what the call leaves behind.
\<close>

lemma load_alone_returns_cache:
  assumes "runningCommands w (key_of l) = None"
    and "maybeStat (files w) (cachePath l) = Some cm"
    and "maybeStat (files w) (path (options l)) = Some lm"
    and "\<not> cm < lm \<or> useStale (options l)"
  shows "result_of (length (promises w)) (load_alone r l w) = Some (Inr (outputPath l))"
    and "files (load_alone r l w) = files w"
    and "execs (load_alone r l w) = execs w"
    and "openFds (load_alone r l w) = openFds w"
    and "runningCommands (load_alone r l w) = runningCommands w"
proof -
  have s: "segments (length (commands w)) r 12 (started l, registered l w)
      = ((started l)\<lparr>awaiting := Cleared, loaderStat := Some lm,
            settled := Some (Inr (outputPath l))\<rparr>,
         (registered l w)\<lparr>runningCommands := runningCommands w\<rparr>)"
    using segments_returns_cache[of "started l" "registered l w" cm lm "length (commands w)" r]
      assms(2-4) unregistered[OF assms(1)]
    by (simp add: started_fields registered_fields)
  show "result_of (length (promises w)) (load_alone r l w) = Some (Inr (outputPath l))"
    "files (load_alone r l w) = files w" "execs (load_alone r l w) = execs w"
    "openFds (load_alone r l w) = openFds w"
    "runningCommands (load_alone r l w) = runningCommands w"
    unfolding load_alone_eq[OF assms(1)] s
    by (simp_all add: result_of_def registered_fields)
qed

lemma load_alone_type_error_cache:
  assumes "runningCommands w (key_of l) = None"
    and "maybeStat (files w) (cachePath l) = Some cm"
    and "maybeStat (files w) (path (options l)) = None"
  shows "result_of (length (promises w)) (load_alone r l w) = Some (Inl TypeError)"
    and "files (load_alone r l w) = files w"
    and "execs (load_alone r l w) = execs w"
proof -
  have s: "segments (length (commands w)) r 12 (started l, registered l w)
      = ((started l)\<lparr>awaiting := Cleared, loaderStat := None, settled := Some (Inl TypeError)\<rparr>,
         (registered l w)\<lparr>runningCommands := runningCommands w\<rparr>)"
    using segments_type_error_cache[of "started l" "registered l w" cm "length (commands w)" r]
      assms(2,3) unregistered[OF assms(1)]
    by (simp add: started_fields registered_fields)
  show "result_of (length (promises w)) (load_alone r l w) = Some (Inl TypeError)"
    "files (load_alone r l w) = files w" "execs (load_alone r l w) = execs w"
    unfolding load_alone_eq[OF assms(1)] s
    by (simp_all add: result_of_def registered_fields)
qed

lemma load_alone_rejected:
  assumes "runningCommands w (key_of l) = None"
    and "must_execute l w"
    and "recently_failed l w \<or> marker_without_source l w"
  shows "result_of (length (promises w)) (load_alone r l w)
           = Some (Inl (if recently_failed l w
               then Error ''loader skipped due to recent error'' None else TypeError))"
    and "files (load_alone r l w) = files w"
    and "execs (load_alone r l w) = execs w"
    and "openFds (load_alone r l w) = openFds w"
    and "runningCommands (load_alone r l w) = runningCommands w"
proof -
  have s: "segments (length (commands w)) r 12 (started l, registered l w)
      = ((started l)\<lparr>awaiting := Cleared, loaderStat := maybeStat (files w) (path (options l)),
            settled := Some (Inl (if recently_failed l w
              then Error ''loader skipped due to recent error'' None else TypeError))\<rparr>,
         (registered l w)\<lparr>runningCommands := runningCommands w\<rparr>)"
    using segments_rejected[of "started l" "registered l w" "length (commands w)" r]
      assms(2,3) unregistered[OF assms(1)]
    by (simp add: started_fields registered_fields registered_decisions)
  show "result_of (length (promises w)) (load_alone r l w)
           = Some (Inl (if recently_failed l w
               then Error ''loader skipped due to recent error'' None else TypeError))"
    "files (load_alone r l w) = files w" "execs (load_alone r l w) = execs w"
    "openFds (load_alone r l w) = openFds w"
    "runningCommands (load_alone r l w) = runningCommands w"
    unfolding load_alone_eq[OF assms(1)] s
    by (simp_all add: result_of_def registered_fields)
qed

lemma load_alone_execute:
  assumes "runningCommands w (key_of l) = None"
    and "must_execute l w"
    and "\<not> recently_failed l w" and "\<not> marker_without_source l w"
  shows "result_of (length (promises w)) (load_alone r l w)
           = Some (case thrown r of None \<Rightarrow> Inr (outputPath l) | Some e \<Rightarrow> Inl e)"
    and "files (load_alone r l w) =
           (case thrown r of
              None \<Rightarrow> (files w)(errorPath (pid w) l := None, tempPath (pid w) l := None,
                         cachePath l \<mapsto> \<lparr>node_mtimeMs = of_int (now w), node_data = piped r\<rparr>)
            | Some e \<Rightarrow> (files w)(errorPath (pid w) l := None, tempPath (pid w) l := None,
                         errorPath (pid w) l \<mapsto> \<lparr>node_mtimeMs = of_int (now w), node_data = piped r\<rparr>))"
    and "execs (load_alone r l w) = execs w @ [length (commands w)]"
    and "openFds (load_alone r l w) = openFds w"
    and "runningCommands (load_alone r l w) = runningCommands w"
proof -
  have s: "segments (length (commands w)) r 12 (started l, registered l w) =
     ((started l)\<lparr>awaiting := Cleared, loaderStat := maybeStat (files w) (path (options l)),
         settled := Some (case thrown r of None \<Rightarrow> Inr (outputPath l) | Some e \<Rightarrow> Inl e)\<rparr>,
      (registered l w)\<lparr>files := (case thrown r of
             None \<Rightarrow> (files w)(errorPath (pid w) l := None, tempPath (pid w) l := None,
                        cachePath l \<mapsto> \<lparr>node_mtimeMs = of_int (now w), node_data = piped r\<rparr>)
           | Some e \<Rightarrow> (files w)(errorPath (pid w) l := None, tempPath (pid w) l := None,
                        errorPath (pid w) l \<mapsto> \<lparr>node_mtimeMs = of_int (now w), node_data = piped r\<rparr>)),
        execs := execs w @ [length (commands w)],
        runningCommands := runningCommands w\<rparr>)"
    using segments_execute[of "started l" "registered l w" "length (commands w)" r]
      assms(2-4) unregistered[OF assms(1)]
    by (simp add: started_fields registered_fields registered_decisions cong: option.case_cong)
  show "result_of (length (promises w)) (load_alone r l w)
           = Some (case thrown r of None \<Rightarrow> Inr (outputPath l) | Some e \<Rightarrow> Inl e)"
    "files (load_alone r l w) =
           (case thrown r of
              None \<Rightarrow> (files w)(errorPath (pid w) l := None, tempPath (pid w) l := None,
                         cachePath l \<mapsto> \<lparr>node_mtimeMs = of_int (now w), node_data = piped r\<rparr>)
            | Some e \<Rightarrow> (files w)(errorPath (pid w) l := None, tempPath (pid w) l := None,
                         errorPath (pid w) l \<mapsto> \<lparr>node_mtimeMs = of_int (now w), node_data = piped r\<rparr>))"
    "execs (load_alone r l w) = execs w @ [length (commands w)]"
    "openFds (load_alone r l w) = openFds w"
    "runningCommands (load_alone r l w) = runningCommands w"
    unfolding load_alone_eq[OF assms(1)] s
    by (simp_all add: result_of_def registered_fields)
qed

text \<open>
  How often the production step runs in a load awaited alone: once when the freshness
  check leads to execution and the cooldown check lets it pass, and not at all otherwise.
\<close>

lemma load_alone_execs:
  assumes "runningCommands w (key_of l) = None"
  shows "execs (load_alone r l w)
           = execs w @ (if must_execute l w \<and> \<not> recently_failed l w
                          \<and> \<not> marker_without_source l w
                        then [length (commands w)] else [])"
proof (cases "must_execute l w")
  case True
  show ?thesis
  proof (cases "recently_failed l w \<or> marker_without_source l w")
    case True
    with load_alone_rejected(3)[OF assms \<open>must_execute l w\<close> True] show ?thesis by auto
  next
    case False
    with load_alone_execute(3)[OF assms True] True show ?thesis by simp
  qed
next
  case False
  then obtain cm where cm: "maybeStat (files w) (cachePath l) = Some cm"
    by (auto simp: must_execute_def split: option.splits)
  show ?thesis
  proof (cases "maybeStat (files w) (path (options l))")
    case None
    from load_alone_type_error_cache(3)[OF assms cm None] False show ?thesis by simp
  next
    case (Some lm)
    with False cm have "\<not> cm < lm \<or> useStale (options l)"
      by (auto simp: must_execute_def)
    from load_alone_returns_cache(3)[OF assms cm Some this] False show ?thesis by simp
  qed
qed

lemma load_alone_promises:
  assumes "runningCommands w (key_of l) = None"
  shows "promises (load_alone r l w) = promises w @ [length (commands w)]"
proof -
  have "promises ((resume c r ^^ n) v) = promises v" for c n v
    by (induction n) (simp_all add: resume_promises)
  then show ?thesis
    using assms by (simp add: load_alone_def load_fresh await_command_def)
qed


text \<open>The paths of the example loader in the process 42.\<close>

lemma loader_items_paths:
  "key_of loader_items = ''src/data/items.csv''"
  "outputPath loader_items = ''.observablehq/cache/data/items.csv''"
  "cachePath loader_items = ''src/.observablehq/cache/data/items.csv''"
  "tempPath 42 loader_items = ''src/.observablehq/cache/data/items.csv.42''"
  "errorPath 42 loader_items = ''src/.observablehq/cache/data/items.csv.42.err''"
  "path (options loader_items) = ''src/data/items.csv.py''"
  by code_simp+


lemma init_process_fields:
  "files (init_process fs t p) = fs" "now (init_process fs t p) = t"
  "pid (init_process fs t p) = p" "runningCommands (init_process fs t p) = Map.empty"
  "commands (init_process fs t p) = []" "execs (init_process fs t p) = []"
  "openFds (init_process fs t p) = []" "promises (init_process fs t p) = []"
  by (simp_all add: init_process_def)

section \<open>Concurrent loads of one key share one execution\<close>

text \<open>The suspension points from which \<open>exec\<close> has been invoked.\<close>

fun exec_invoked :: "pc \<Rightarrow> bool" where
  "exec_invoked AwaitStatLoader = False"
| "exec_invoked AwaitStatCache = False"
| "exec_invoked AwaitStatError = False"
| "exec_invoked AwaitUnlink = False"
| "exec_invoked AwaitPrepareTemp = False"
| "exec_invoked AwaitPrepareCache = False"
| "exec_invoked AwaitOpen = False"
| "exec_invoked _ = True"

text \<open>
  The invariant of the registry: an entry points to a promise of that key whose
  \<open>finally\<close> callback has not run; every promise whose callback has not run is the one
  registered under its key; the production step of a promise is in the log at most once,
  and only from \<open>exec\<close> on; a promise is settled exactly from \<open>Settled\<close> on, and a
  resolved one holds the output path of its loader.
\<close>

definition registry_ok :: "process \<Rightarrow> bool" where
  "registry_ok w =
     ((\<forall>k c. runningCommands w k = Some c \<longrightarrow>
         c < length (commands w) \<and> key_of (this (commands w ! c)) = k \<and>
         awaiting (commands w ! c) \<noteq> Cleared)
    \<and> (\<forall>c. c < length (commands w) \<and> awaiting (commands w ! c) \<noteq> Cleared \<longrightarrow>
         runningCommands w (key_of (this (commands w ! c))) = Some c)
    \<and> (\<forall>c. count_list (execs w) c \<le> 1 \<and>
         (c \<in> set (execs w) \<longrightarrow> c < length (commands w) \<and> exec_invoked (awaiting (commands w ! c))))
    \<and> (\<forall>c. c < length (commands w) \<longrightarrow>
         (settled (commands w ! c) = None \<longleftrightarrow>
            awaiting (commands w ! c) \<noteq> Settled \<and> awaiting (commands w ! c) \<noteq> Cleared) \<and>
         (\<forall>p. settled (commands w ! c) = Some (Inr p) \<longrightarrow>
            p = outputPath (this (commands w ! c)))))"

lemma registry_ok_init: "registry_ok (init_process fs t p)"
  by (simp add: registry_ok_def init_process_def)

lemma body_effect:
  assumes "body c r t w = (t', w')"
  shows "this t' = this t"
    and "commands w' = commands w"
    and "runningCommands w' =
           (if awaiting t = Settled then (runningCommands w)(key_of (this t) := None)
            else runningCommands w)"
    and "awaiting t' = Cleared \<longleftrightarrow> awaiting t = Settled \<or> awaiting t = Cleared"
    and "execs w' = (if awaiting t = AwaitOpen then execs w @ [c] else execs w)"
    and "exec_invoked (awaiting t) \<or> awaiting t = AwaitOpen \<Longrightarrow> exec_invoked (awaiting t')"
    and "(settled t = None \<longleftrightarrow> awaiting t \<noteq> Settled \<and> awaiting t \<noteq> Cleared) \<Longrightarrow>
         (settled t' = None \<longleftrightarrow> awaiting t' \<noteq> Settled \<and> awaiting t' \<noteq> Cleared)"
    and "(settled t = None \<longleftrightarrow> awaiting t \<noteq> Settled \<and> awaiting t \<noteq> Cleared) \<Longrightarrow>
         (\<forall>p. settled t = Some (Inr p) \<longrightarrow> p = outputPath (this t)) \<Longrightarrow>
         settled t' = Some (Inr p) \<Longrightarrow> p = outputPath (this t)"
  using assms
  by (cases "awaiting t"; auto simp: body_at split: option.splits if_splits)+

lemma registry_ok_promises: "registry_ok (w\<lparr>promises := ps\<rparr>) = registry_ok w"
  by (simp add: registry_ok_def)

lemma load_preserves:
  assumes "registry_ok w"
  shows "registry_ok (snd (load l w))"
proof (cases "runningCommands w (key_of l)")
  case (Some c)
  then show ?thesis using assms by (simp add: load_registered registry_ok_promises)
next
  case None
  let ?n = "length (commands w)"
  let ?t = "\<lparr>this = l, awaiting = AwaitStatLoader, loaderStat = None, settled = None\<rparr>"
  let ?w = "w\<lparr>commands := commands w @ [?t],
       runningCommands := (runningCommands w)(key_of l \<mapsto> ?n)\<rparr>"
  have eq: "snd (load l w) = ?w\<lparr>promises := promises w @ [?n]\<rparr>"
    using None by (simp add: load_fresh)
  from assms have
    a: "\<And>k c. runningCommands w k = Some c \<Longrightarrow>
         c < ?n \<and> key_of (this (commands w ! c)) = k \<and> awaiting (commands w ! c) \<noteq> Cleared"
    and b: "\<And>c. c < ?n \<Longrightarrow> awaiting (commands w ! c) \<noteq> Cleared \<Longrightarrow>
         runningCommands w (key_of (this (commands w ! c))) = Some c"
    and x: "\<And>c. count_list (execs w) c \<le> 1"
    and x': "\<And>c. c \<in> set (execs w) \<Longrightarrow> c < ?n \<and> exec_invoked (awaiting (commands w ! c))"
    and d: "\<And>c. c < ?n \<Longrightarrow>
         (settled (commands w ! c) = None \<longleftrightarrow>
            awaiting (commands w ! c) \<noteq> Settled \<and> awaiting (commands w ! c) \<noteq> Cleared) \<and>
         (\<forall>p. settled (commands w ! c) = Some (Inr p) \<longrightarrow>
            p = outputPath (this (commands w ! c)))"
    unfolding registry_ok_def by blast+
  have nth: "(commands w @ [?t]) ! c = (if c < ?n then commands w ! c else ?t)" if "c \<le> ?n" for c
    using that by (auto simp: nth_append)
  have A: "\<forall>k c. runningCommands ?w k = Some c \<longrightarrow>
      c < length (commands ?w) \<and> key_of (this (commands ?w ! c)) = k \<and>
      awaiting (commands ?w ! c) \<noteq> Cleared"
  proof (intro allI impI)
    fix k c assume "runningCommands ?w k = Some c"
    then have "(k = key_of l \<and> c = ?n) \<or> (k \<noteq> key_of l \<and> runningCommands w k = Some c)"
      by (auto split: if_splits)
    then show "c < length (commands ?w) \<and> key_of (this (commands ?w ! c)) = k \<and>
        awaiting (commands ?w ! c) \<noteq> Cleared"
      using a[of k c] by (auto simp: nth_append)
  qed
  have B: "\<forall>c. c < length (commands ?w) \<and> awaiting (commands ?w ! c) \<noteq> Cleared \<longrightarrow>
      runningCommands ?w (key_of (this (commands ?w ! c))) = Some c"
  proof (intro allI impI)
    fix c assume c: "c < length (commands ?w) \<and> awaiting (commands ?w ! c) \<noteq> Cleared"
    show "runningCommands ?w (key_of (this (commands ?w ! c))) = Some c"
    proof (cases "c < ?n")
      case True
      with c have r: "runningCommands w (key_of (this (commands w ! c))) = Some c"
        using b[of c] by (simp add: nth_append)
      with None have "key_of (this (commands w ! c)) \<noteq> key_of l" by auto
      with True r show ?thesis by (simp add: nth_append)
    next
      case False
      with c have "c = ?n" by simp
      then show ?thesis by simp
    qed
  qed
  have C: "\<forall>c. count_list (execs ?w) c \<le> 1 \<and>
      (c \<in> set (execs ?w) \<longrightarrow>
         c < length (commands ?w) \<and> exec_invoked (awaiting (commands ?w ! c)))"
  proof (intro allI conjI impI)
    fix c show "count_list (execs ?w) c \<le> 1" using x[of c] by simp
  next
    fix c assume "c \<in> set (execs ?w)"
    then have "c < ?n \<and> exec_invoked (awaiting (commands w ! c))" using x'[of c] by simp
    then show "c < length (commands ?w)" "exec_invoked (awaiting (commands ?w ! c))"
      by (simp_all add: nth_append)
  qed
  have D: "\<forall>c. c < length (commands ?w) \<longrightarrow>
      (settled (commands ?w ! c) = None \<longleftrightarrow>
         awaiting (commands ?w ! c) \<noteq> Settled \<and> awaiting (commands ?w ! c) \<noteq> Cleared) \<and>
      (\<forall>p. settled (commands ?w ! c) = Some (Inr p) \<longrightarrow>
         p = outputPath (this (commands ?w ! c)))"
  proof (intro allI impI)
    fix c assume "c < length (commands ?w)"
    then show "(settled (commands ?w ! c) = None \<longleftrightarrow>
         awaiting (commands ?w ! c) \<noteq> Settled \<and> awaiting (commands ?w ! c) \<noteq> Cleared) \<and>
      (\<forall>p. settled (commands ?w ! c) = Some (Inr p) \<longrightarrow>
         p = outputPath (this (commands ?w ! c)))"
      using d[of c] by (cases "c < ?n") (auto simp: nth_append)
  qed
  have "registry_ok ?w"
    unfolding registry_ok_def using A B C D by blast
  with eq show ?thesis by (simp add: registry_ok_promises)
qed

lemma resume_preserves:
  assumes "registry_ok w"
  shows "registry_ok (resume c r w)"
proof (cases "c < length (commands w)")
  case False
  then show ?thesis using assms by (simp add: resume_def)
next
  case True
  let ?n = "length (commands w)"
  let ?t = "commands w ! c"
  obtain t' v where bd: "body c r ?t w = (t', v)" by (cases "body c r ?t w")
  note eff = body_effect[OF bd]
  let ?w = "v\<lparr>commands := (commands w)[c := t']\<rparr>"
  have eq: "resume c r w = ?w"
    using True bd eff(2) by (simp add: resume_def)
  from assms have
    a: "\<And>k c. runningCommands w k = Some c \<Longrightarrow>
         c < ?n \<and> key_of (this (commands w ! c)) = k \<and> awaiting (commands w ! c) \<noteq> Cleared"
    and b: "\<And>c. c < ?n \<Longrightarrow> awaiting (commands w ! c) \<noteq> Cleared \<Longrightarrow>
         runningCommands w (key_of (this (commands w ! c))) = Some c"
    and x: "\<And>c. count_list (execs w) c \<le> 1"
    and x': "\<And>c. c \<in> set (execs w) \<Longrightarrow> c < ?n \<and> exec_invoked (awaiting (commands w ! c))"
    and d: "\<And>c. c < ?n \<Longrightarrow>
         (settled (commands w ! c) = None \<longleftrightarrow>
            awaiting (commands w ! c) \<noteq> Settled \<and> awaiting (commands w ! c) \<noteq> Cleared)"
    and d': "\<And>c p. c < ?n \<Longrightarrow> settled (commands w ! c) = Some (Inr p) \<Longrightarrow>
            p = outputPath (this (commands w ! c))"
    unfolding registry_ok_def by blast+
  have nth: "commands ?w ! c' = (if c' = c then t' else commands w ! c')" if "c' < ?n" for c'
    using that by (simp add: nth_list_update)
  have len: "length (commands ?w) = ?n" by simp
  have rc: "runningCommands ?w =
      (if awaiting ?t = Settled then (runningCommands w)(key_of (this ?t) := None)
       else runningCommands w)"
    using eff(3) by simp
  have ex: "execs ?w = (if awaiting ?t = AwaitOpen then execs w @ [c] else execs w)"
    using eff(5) by simp
  have A: "\<forall>k c'. runningCommands ?w k = Some c' \<longrightarrow>
      c' < length (commands ?w) \<and> key_of (this (commands ?w ! c')) = k \<and>
      awaiting (commands ?w ! c') \<noteq> Cleared"
  proof (intro allI impI)
    fix k c' assume h: "runningCommands ?w k = Some c'"
    then have old: "runningCommands w k = Some c'"
      and ne: "awaiting ?t = Settled \<Longrightarrow> k \<noteq> key_of (this ?t)"
      unfolding rc by (auto split: if_splits)
    from a[OF old] have o: "c' < ?n" "key_of (this (commands w ! c')) = k"
      "awaiting (commands w ! c') \<noteq> Cleared" by simp_all
    show "c' < length (commands ?w) \<and> key_of (this (commands ?w ! c')) = k \<and>
        awaiting (commands ?w ! c') \<noteq> Cleared"
    proof (cases "c' = c")
      case True
      with o ne have "awaiting ?t \<noteq> Settled" "awaiting ?t \<noteq> Cleared" by auto
      with eff(4) have "awaiting t' \<noteq> Cleared" by simp
      with True o eff(1) show ?thesis by (simp add: nth)
    next
      case False
      with o show ?thesis by (simp add: nth)
    qed
  qed
  have B: "\<forall>c'. c' < length (commands ?w) \<and> awaiting (commands ?w ! c') \<noteq> Cleared \<longrightarrow>
      runningCommands ?w (key_of (this (commands ?w ! c'))) = Some c'"
  proof (intro allI impI)
    fix c' assume h: "c' < length (commands ?w) \<and> awaiting (commands ?w ! c') \<noteq> Cleared"
    then have c'n: "c' < ?n" by simp
    show "runningCommands ?w (key_of (this (commands ?w ! c'))) = Some c'"
    proof (cases "c' = c")
      case True
      with h c'n have "awaiting t' \<noteq> Cleared" by (simp add: nth)
      with eff(4) have ns: "awaiting ?t \<noteq> Settled" "awaiting ?t \<noteq> Cleared" by simp_all
      with b[OF \<open>c < ?n\<close>] have "runningCommands w (key_of (this ?t)) = Some c" by simp
      with ns True c'n eff(1) show ?thesis unfolding rc by (simp add: nth)
    next
      case False
      with h c'n have nc: "awaiting (commands w ! c') \<noteq> Cleared" by (simp add: nth)
      from b[OF c'n nc] have r: "runningCommands w (key_of (this (commands w ! c'))) = Some c'" .
      have "key_of (this (commands w ! c')) \<noteq> key_of (this ?t)" if "awaiting ?t = Settled"
      proof
        assume k: "key_of (this (commands w ! c')) = key_of (this ?t)"
        from that b[OF \<open>c < ?n\<close>] have "runningCommands w (key_of (this ?t)) = Some c" by simp
        with r k False show False by simp
      qed
      with r False c'n show ?thesis unfolding rc by (simp add: nth)
    qed
  qed
  have C1: "count_list (execs ?w) c' \<le> 1" for c'
  proof (cases "awaiting ?t = AwaitOpen \<and> c' = c")
    case True
    then have "c \<notin> set (execs w)" using x'[of c] by auto
    then have "count_list (execs w) c = 0" by (simp add: count_list_0_iff)
    with True show ?thesis unfolding ex by simp
  next
    case False
    then show ?thesis unfolding ex using x[of c'] by auto
  qed
  have C2: "c' < length (commands ?w) \<and> exec_invoked (awaiting (commands ?w ! c'))"
    if h: "c' \<in> set (execs ?w)" for c'
  proof (cases "c' = c")
    case True
    from h have "c \<in> set (execs w) \<or> awaiting ?t = AwaitOpen"
      unfolding ex True by (auto split: if_splits)
    then have "exec_invoked (awaiting ?t) \<or> awaiting ?t = AwaitOpen" using x'[of c] by auto
    then have "exec_invoked (awaiting t')" by (rule eff(6))
    with True \<open>c < ?n\<close> show ?thesis by (simp add: nth)
  next
    case False
    with h have "c' \<in> set (execs w)" unfolding ex by (auto split: if_splits)
    with x'[of c'] False show ?thesis by (simp add: nth)
  qed
  have D1: "(settled (commands ?w ! c') = None) =
        (awaiting (commands ?w ! c') \<noteq> Settled \<and> awaiting (commands ?w ! c') \<noteq> Cleared)"
    if h: "c' < length (commands ?w)" for c'
    using h d[of c'] eff(7)[OF d[OF \<open>c < ?n\<close>]] by (cases "c' = c") (simp_all add: nth)
  have D2: "p = outputPath (this (commands ?w ! c'))"
    if h: "c' < length (commands ?w)" "settled (commands ?w ! c') = Some (Inr p)" for c' p
  proof (cases "c' = c")
    case True
    with h have "settled t' = Some (Inr p)" by (simp add: nth)
    from eff(8)[OF d[OF \<open>c < ?n\<close>] _ this] d'[OF \<open>c < ?n\<close>]
    have "p = outputPath (this ?t)" by blast
    with True \<open>c < ?n\<close> eff(1) show ?thesis by (simp add: nth)
  next
    case False
    with h d'[of c' p] show ?thesis by (simp add: nth)
  qed
  have "registry_ok ?w"
    unfolding registry_ok_def using A B C1 C2 D1 D2 by blast
  with eq show ?thesis by simp
qed

lemma step_preserves: "registry_ok w \<Longrightarrow> registry_ok (step e w)"
proof (cases e)
  case (Load l)
  assume "registry_ok w"
  with Load show ?thesis by (simp add: load_preserves)
next
  case (Resume c r)
  assume "registry_ok w"
  with Resume show ?thesis by (simp add: resume_preserves)
next
  case (Tick n)
  assume "registry_ok w"
  with Tick show ?thesis by (simp add: registry_ok_def)
next
  case (WriteFile p f)
  assume "registry_ok w"
  with WriteFile show ?thesis by (simp add: registry_ok_def)
qed

lemma run_preserves: "registry_ok w \<Longrightarrow> registry_ok (run es w)"
  unfolding run_def by (induction es arbitrary: w) (simp_all add: step_preserves)

lemma run_append: "run (es @ es') w = run es' (run es w)"
  by (simp add: run_def)

text \<open>Promises are never removed, and a promise keeps its loader.\<close>

lemma step_this:
  assumes "c < length (commands w)"
  shows "c < length (commands (step e w)) \<and> this (commands (step e w) ! c) = this (commands w ! c)"
proof (cases e)
  case (Load l)
  show ?thesis
  proof (cases "runningCommands w (key_of l)")
    case None
    with Load assms show ?thesis by (simp add: load_fresh nth_append)
  next
    case (Some c')
    with Load assms show ?thesis by (simp add: load_registered)
  qed
next
  case (Resume c' r)
  show ?thesis
  proof (cases "c' < length (commands w)")
    case False
    with Resume assms show ?thesis by (simp add: resume_def)
  next
    case True
    obtain t' v where bd: "body c' r (commands w ! c') w = (t', v)"
      by (cases "body c' r (commands w ! c') w")
    from body_effect(1,2)[OF bd] True Resume assms bd show ?thesis
      by (auto simp: resume_def nth_list_update)
  qed
next
  case (Tick n)
  with assms show ?thesis by simp
next
  case (WriteFile p f)
  with assms show ?thesis by simp
qed

lemma run_this:
  "c < length (commands w) \<Longrightarrow>
   c < length (commands (run es w)) \<and> this (commands (run es w) ! c) = this (commands w ! c)"
  unfolding run_def
proof (induction es arbitrary: w)
  case Nil
  then show ?case by simp
next
  case (Cons e es)
  from step_this[OF Cons.prems, of e] Cons.IH[of "step e w"] show ?case by simp
qed

lemma registry_ok_entry:
  "registry_ok w \<Longrightarrow> runningCommands w k = Some c \<Longrightarrow>
   c < length (commands w) \<and> key_of (this (commands w ! c)) = k \<and> awaiting (commands w ! c) \<noteq> Cleared"
  unfolding registry_ok_def by blast

lemma registry_ok_in_flight:
  "registry_ok w \<Longrightarrow> c < length (commands w) \<Longrightarrow> awaiting (commands w ! c) \<noteq> Cleared \<Longrightarrow>
   runningCommands w (key_of (this (commands w ! c))) = Some c"
  unfolding registry_ok_def by blast

lemma registry_ok_once: "registry_ok w \<Longrightarrow> count_list (execs w) c \<le> 1"
  unfolding registry_ok_def by blast

lemma registry_ok_execs: "registry_ok w \<Longrightarrow> c \<in> set (execs w) \<Longrightarrow> c < length (commands w)"
  unfolding registry_ok_def by blast

lemma registry_ok_pending:
  "registry_ok w \<Longrightarrow> c < length (commands w) \<Longrightarrow> settled (commands w ! c) = None \<Longrightarrow>
   awaiting (commands w ! c) \<noteq> Cleared"
  unfolding registry_ok_def by blast

lemma registry_ok_resolved:
  "registry_ok w \<Longrightarrow> c < length (commands w) \<Longrightarrow> settled (commands w ! c) = Some (Inr q) \<Longrightarrow>
   q = outputPath (this (commands w ! c))"
  unfolding registry_ok_def by blast

lemma key_of_same:
  "root (options l2) = root (options l1) \<Longrightarrow> targetPath (options l2) = targetPath (options l1) \<Longrightarrow>
   key_of l2 = key_of l1"
  by (simp add: key_of_def)

text \<open>A promise that \<open>load\<close> has returned follows the same command for ever.\<close>

lemma step_promises:
  assumes "q < length (promises w)"
  shows "q < length (promises (step e w)) \<and> promises (step e w) ! q = promises w ! q"
proof (cases e)
  case (Load l)
  show ?thesis
  proof (cases "runningCommands w (key_of l)")
    case None
    with Load assms show ?thesis by (simp add: load_fresh nth_append)
  next
    case (Some c')
    with Load assms show ?thesis by (simp add: load_registered nth_append)
  qed
next
  case (Resume c' r)
  with assms show ?thesis by (simp add: resume_promises)
next
  case (Tick n)
  with assms show ?thesis by simp
next
  case (WriteFile f v)
  with assms show ?thesis by simp
qed

lemma run_promises:
  "q < length (promises w) \<Longrightarrow>
   q < length (promises (run es w)) \<and> promises (run es w) ! q = promises w ! q"
  unfolding run_def
proof (induction es arbitrary: w)
  case Nil
  then show ?case by simp
next
  case (Cons e es)
  from step_promises[OF Cons.prems, of e] Cons.IH[of "step e w"] show ?case by simp
qed

lemma result_of_set_promises:
  "result_of q (w\<lparr>promises := ps\<rparr>) = settled (commands w ! (ps ! q))"
  by (simp add: result_of_def)

text \<open>
  C1, as the claim states it, fails: with a fresh cache file, two calls of \<open>load\<close> for
  the same loader, the second made while the command of the first is unsettled, give two
  promises that follow one command and resolve to the cache path, and the production
  step runs zero times, not once.
\<close>

theorem load_twice_fresh_no_exec:
  "load loader_items (init_process files_fresh 5000 42)
     = (0, snd (load loader_items (init_process files_fresh 5000 42)))
   \<and> result_of 0 (snd (load loader_items (init_process files_fresh 5000 42))) = None
   \<and> fst (load loader_items (snd (load loader_items (init_process files_fresh 5000 42)))) = 1
   \<and> commands (snd (load loader_items
        (snd (load loader_items (init_process files_fresh 5000 42)))))
       = commands (snd (load loader_items (init_process files_fresh 5000 42)))
   \<and> result_of 0 (await_command exec_ok 0 (snd (load loader_items
        (snd (load loader_items (init_process files_fresh 5000 42))))))
       = Some (Inr ''.observablehq/cache/data/items.csv'')
   \<and> result_of 1 (await_command exec_ok 0 (snd (load loader_items
        (snd (load loader_items (init_process files_fresh 5000 42))))))
       = Some (Inr ''.observablehq/cache/data/items.csv'')
   \<and> execs (await_command exec_ok 0 (snd (load loader_items
        (snd (load loader_items (init_process files_fresh 5000 42)))))) = []"
proof -
  let ?w = "init_process files_fresh 5000 42"
  let ?w1 = "snd (load loader_items ?w)"
  let ?w2 = "snd (load loader_items ?w1)"
  have fresh: "runningCommands ?w (key_of loader_items) = None"
    by (simp add: init_process_fields)
  note first = load_fresh[OF fresh]
  have p1: "load loader_items ?w = (0, ?w1)"
    by (simp add: first init_process_fields)
  have pr1: "promises ?w1 = [0]"
    by (simp add: first init_process_fields)
  have pending: "result_of 0 ?w1 = None"
    by (simp add: first result_of_def init_process_fields)
  have "runningCommands ?w1 (key_of loader_items) = Some (promises ?w1 ! 0)"
    using p1 by (rule load_key)
  then have reg: "runningCommands ?w1 (key_of loader_items) = Some 0"
    by (simp add: pr1)
  have second: "load loader_items ?w1 = (1, ?w1\<lparr>promises := [0, 0]\<rparr>)"
    using load_registered[OF reg] by (simp add: pr1)
  have cache: "maybeStat (files ?w) (cachePath loader_items) = Some 200"
    and source: "maybeStat (files ?w) (path (options loader_items)) = Some 100"
    by (simp_all add: init_process_fields loader_items_paths maybeStat_def files_fresh_def
        files_source_def)
  have alone: "await_command exec_ok 0 ?w1 = load_alone exec_ok loader_items ?w"
    by (simp add: load_alone_def first init_process_fields)
  have final: "await_command exec_ok 0 ?w2
      = (load_alone exec_ok loader_items ?w)\<lparr>promises := [0, 0]\<rparr>"
    unfolding second snd_conv
    by (simp add: await_command_def resume_funpow_set_promises
        alone[unfolded await_command_def])
  have la: "result_of 0 (load_alone exec_ok loader_items ?w) = Some (Inr (outputPath loader_items))"
    "execs (load_alone exec_ok loader_items ?w) = []"
    "promises (load_alone exec_ok loader_items ?w) = [0]"
    using load_alone_returns_cache(1,3)[OF fresh cache source, of exec_ok]
      load_alone_promises[OF fresh, of exec_ok]
    by (simp_all add: init_process_fields)
  from la(1,3) have "settled (commands (load_alone exec_ok loader_items ?w) ! 0)
      = Some (Inr ''.observablehq/cache/data/items.csv'')"
    by (simp add: result_of_def loader_items_paths)
  then have res: "result_of 0 (await_command exec_ok 0 ?w2)
       = Some (Inr ''.observablehq/cache/data/items.csv'')"
    "result_of 1 (await_command exec_ok 0 ?w2)
       = Some (Inr ''.observablehq/cache/data/items.csv'')"
    unfolding final by (simp_all add: result_of_set_promises)
  have ex: "execs (await_command exec_ok 0 ?w2) = []"
    unfolding final using la(2) by simp
  have same_commands: "commands ?w2 = commands ?w1"
    unfolding second by simp
  have "fst (load loader_items ?w1) = 1"
    unfolding second by simp
  with p1 pending same_commands res ex show ?thesis by simp
qed

text \<open>
  C1, amended: let a call of \<open>load\<close> register its key and start a command, let anything
  be scheduled after it (other loads, resumptions of any command, time, file changes),
  and let a second call for a loader with the same root and target path come while that
  command is unsettled. Then the second call starts no second body: it changes nothing
  but the list of returned promises, and its promise, which is a promise of its own,
  follows the same command as the promise of the first call. From then on, whatever is
  scheduled, the two promises are settled alike, the production step of the command is
  in the log at most once, a promise that resolves resolves to the cache path of the
  target, and no two commands with the same key are in flight (not yet cleared from the
  registry) at once. When nothing but resumptions of the command itself is scheduled
  between the first call and the second and up to the twelfth resumption of the command,
  the production step has run exactly once if the freshness check of the first call led
  to execution and the cooldown check let it pass, and both promises are then settled as
  the production step ended; it has not run at all otherwise.
\<close>

theorem load_dedup:
  assumes reach: "w = run es (init_process fs t0 p)"
    and fresh: "runningCommands w (key_of l1) = None"
    and first: "load l1 w = (p1, w1)"
    and between: "w2 = run es' w1"
    and pending: "result_of p1 w2 = None"
    and same: "root (options l2) = root (options l1)"
      "targetPath (options l2) = targetPath (options l1)"
    and second: "load l2 w2 = (p2, w3)"
  shows "(p2 \<noteq> p1 \<and> promises w3 ! p2 = promises w3 ! p1
          \<and> w3 = w2\<lparr>promises := promises w2 @ [promises w2 ! p1]\<rparr>)
       \<and> (\<forall>es''. result_of p2 (run es'' w3) = result_of p1 (run es'' w3))
       \<and> (\<forall>es''. count_list (execs (run es'' w3)) (promises w3 ! p1) \<le> 1)
       \<and> (\<forall>es'' q. result_of p1 (run es'' w3) = Some (Inr q) \<longrightarrow>
             q = join [''.observablehq'', ''cache'', targetPath (options l1)])
       \<and> (\<forall>es'' c c'.
             c < length (commands (run es'' w3)) \<and> c' < length (commands (run es'' w3)) \<and>
             awaiting (commands (run es'' w3) ! c) \<noteq> Cleared \<and>
             awaiting (commands (run es'' w3) ! c') \<noteq> Cleared \<and>
             key_of (this (commands (run es'' w3) ! c))
               = key_of (this (commands (run es'' w3) ! c')) \<longrightarrow>
             c = c')
       \<and> (\<forall>k r. es' = replicate k (Resume (promises w1 ! p1) r) \<and> k \<le> 12 \<longrightarrow>
             count_list
               (execs (run (replicate (12 - k) (Resume (promises w1 ! p1) r)) w3))
               (promises w1 ! p1)
               = (if must_execute l1 w \<and> \<not> recently_failed l1 w
                     \<and> \<not> marker_without_source l1 w then 1 else 0)
             \<and> (must_execute l1 w \<and> \<not> recently_failed l1 w
                  \<and> \<not> marker_without_source l1 w \<longrightarrow>
                  result_of p1 (run (replicate (12 - k) (Resume (promises w1 ! p1) r)) w3)
                    = Some (case thrown r of None \<Rightarrow> Inr (outputPath l1) | Some e \<Rightarrow> Inl e)
                  \<and> result_of p2 (run (replicate (12 - k) (Resume (promises w1 ! p1) r)) w3)
                    = Some (case thrown r of None \<Rightarrow> Inr (outputPath l1) | Some e \<Rightarrow> Inl e)))"
proof -
  define c1 where "c1 = length (commands w)"
  have ok_w: "registry_ok w"
    unfolding reach by (intro run_preserves registry_ok_init)
  from first fresh have p1: "p1 = length (promises w)"
    and w1: "w1 = w\<lparr>commands := commands w @
          [\<lparr>this = l1, awaiting = AwaitStatLoader, loaderStat = None, settled = None\<rparr>],
       runningCommands := (runningCommands w)(key_of l1 \<mapsto> length (commands w)),
       promises := promises w @ [length (commands w)]\<rparr>"
    by (auto simp: load_fresh)
  have c1: "c1 < length (commands w1)" "this (commands w1 ! c1) = l1"
    and pw1: "p1 < length (promises w1)" "promises w1 ! p1 = c1"
    unfolding w1 p1 c1_def by simp_all
  have ok_w1: "registry_ok w1"
    using load_preserves[OF ok_w, of l1] first by simp
  have ok_w2: "registry_ok w2"
    unfolding between by (intro run_preserves ok_w1)
  from run_this[OF c1(1), of es'] c1(2)
  have c1_w2: "c1 < length (commands w2)" "this (commands w2 ! c1) = l1"
    unfolding between by simp_all
  from run_promises[OF pw1(1), of es'] pw1(2)
  have pw2: "p1 < length (promises w2)" "promises w2 ! p1 = c1"
    unfolding between by simp_all
  from pending have "settled (commands w2 ! c1) = None"
    by (simp add: result_of_def pw2)
  with ok_w2 c1_w2(1) have "awaiting (commands w2 ! c1) \<noteq> Cleared"
    by (rule registry_ok_pending)
  with ok_w2 c1_w2(1) have "runningCommands w2 (key_of (this (commands w2 ! c1))) = Some c1"
    by (rule registry_ok_in_flight)
  then have "runningCommands w2 (key_of l2) = Some c1"
    using key_of_same[OF same] c1_w2(2) by simp
  from load_registered[OF this] second
  have p2: "p2 = length (promises w2)" and w3: "w3 = w2\<lparr>promises := promises w2 @ [c1]\<rparr>"
    by simp_all
  have pw3: "p1 < length (promises w3)" "promises w3 ! p1 = c1"
      "p2 < length (promises w3)" "promises w3 ! p2 = c1"
    unfolding w3 p2 using pw2 by (simp_all add: nth_append)
  have c1_w3: "c1 < length (commands w3)" "this (commands w3 ! c1) = l1"
    unfolding w3 using c1_w2 by simp_all
  have ok_w3: "registry_ok w3"
    unfolding w3 using ok_w2 by (simp add: registry_ok_promises)
  have ok: "registry_ok (run es'' w3)" for es''
    by (intro run_preserves ok_w3)
  have c1_later: "c1 < length (commands (run es'' w3))"
      "this (commands (run es'' w3) ! c1) = l1" for es''
    using run_this[OF c1_w3(1), of es''] c1_w3(2) by simp_all
  have p_later: "promises (run es'' w3) ! p1 = c1" "promises (run es'' w3) ! p2 = c1" for es''
    using run_promises[OF pw3(1), of es''] run_promises[OF pw3(3), of es''] pw3(2,4)
    by simp_all
  have A: "p2 \<noteq> p1 \<and> promises w3 ! p2 = promises w3 ! p1
          \<and> w3 = w2\<lparr>promises := promises w2 @ [promises w2 ! p1]\<rparr>"
    using pw2 p2 pw3 w3 by simp
  have B: "result_of p2 (run es'' w3) = result_of p1 (run es'' w3)" for es''
    by (simp add: result_of_def p_later)
  have C: "count_list (execs (run es'' w3)) (promises w3 ! p1) \<le> 1" for es''
    using ok[of es''] by (rule registry_ok_once)
  have D: "q = join [''.observablehq'', ''cache'', targetPath (options l1)]"
    if "result_of p1 (run es'' w3) = Some (Inr q)" for es'' q
  proof -
    from that have "settled (commands (run es'' w3) ! c1) = Some (Inr q)"
      by (simp add: result_of_def p_later)
    with ok[of es''] c1_later(1)[of es'']
    have "q = outputPath (this (commands (run es'' w3) ! c1))"
      by (rule registry_ok_resolved)
    then show ?thesis by (simp add: c1_later(2) outputPath_def)
  qed
  have E: "c = c'"
    if h: "c < length (commands (run es'' w3)) \<and> c' < length (commands (run es'' w3)) \<and>
        awaiting (commands (run es'' w3) ! c) \<noteq> Cleared \<and>
        awaiting (commands (run es'' w3) ! c') \<noteq> Cleared \<and>
        key_of (this (commands (run es'' w3) ! c))
          = key_of (this (commands (run es'' w3) ! c'))" for es'' c c'
  proof -
    from h have lc: "c < length (commands (run es'' w3))"
      and lc': "c' < length (commands (run es'' w3))"
      and ac: "awaiting (commands (run es'' w3) ! c) \<noteq> Cleared"
      and ac': "awaiting (commands (run es'' w3) ! c') \<noteq> Cleared"
      and k: "key_of (this (commands (run es'' w3) ! c))
          = key_of (this (commands (run es'' w3) ! c'))"
      by blast+
    from registry_ok_in_flight[OF ok[of es''] lc ac]
    have "runningCommands (run es'' w3) (key_of (this (commands (run es'' w3) ! c'))) = Some c"
      unfolding k .
    moreover note registry_ok_in_flight[OF ok[of es''] lc' ac']
    ultimately show ?thesis by simp
  qed
  have F: "count_list (execs (run (replicate (12 - k) (Resume (promises w1 ! p1) r)) w3))
               (promises w1 ! p1)
               = (if must_execute l1 w \<and> \<not> recently_failed l1 w
                     \<and> \<not> marker_without_source l1 w then 1 else 0)
             \<and> (must_execute l1 w \<and> \<not> recently_failed l1 w
                  \<and> \<not> marker_without_source l1 w \<longrightarrow>
                  result_of p1 (run (replicate (12 - k) (Resume (promises w1 ! p1) r)) w3)
                    = Some (case thrown r of None \<Rightarrow> Inr (outputPath l1) | Some e \<Rightarrow> Inl e)
                  \<and> result_of p2 (run (replicate (12 - k) (Resume (promises w1 ! p1) r)) w3)
                    = Some (case thrown r of None \<Rightarrow> Inr (outputPath l1) | Some e \<Rightarrow> Inl e))"
    if h: "es' = replicate k (Resume (promises w1 ! p1) r) \<and> k \<le> 12" for k r
  proof -
    let ?F = "run (replicate (12 - k) (Resume (promises w1 ! p1) r)) w3"
    let ?X = "must_execute l1 w \<and> \<not> recently_failed l1 w \<and> \<not> marker_without_source l1 w"
    from h have es': "es' = replicate k (Resume c1 r)" and k: "k \<le> 12"
      by (simp_all add: pw1)
    have w2': "w2 = (resume c1 r ^^ k) w1"
      unfolding between es' by (rule run_resumes)
    have alone: "load_alone r l1 w = (resume c1 r ^^ 12) w1"
      by (simp add: load_alone_def first pw1 await_command_def)
    have Fc: "?F = run (replicate (12 - k) (Resume c1 r)) w3"
      by (simp add: pw1)
    have "run (replicate (12 - k) (Resume c1 r)) w3 = (resume c1 r ^^ (12 - k)) w3"
      by (rule run_resumes)
    also have "\<dots> = ((resume c1 r ^^ (12 - k)) w2)\<lparr>promises := promises w2 @ [c1]\<rparr>"
      unfolding w3 by (rule resume_funpow_set_promises)
    also have "(resume c1 r ^^ (12 - k)) w2 = (resume c1 r ^^ (12 - k + k)) w1"
      unfolding w2' by (simp add: funpow_add)
    also have "\<dots> = load_alone r l1 w"
      using k by (simp add: alone)
    finally have F: "?F = (load_alone r l1 w)\<lparr>promises := promises w2 @ [c1]\<rparr>"
      unfolding Fc .
    have "c1 \<notin> set (execs w)"
      using registry_ok_execs[OF ok_w, of c1] by (auto simp: c1_def)
    then have zero: "count_list (execs w) c1 = 0"
      by (simp add: count_list_0_iff)
    have "count_list (execs (load_alone r l1 w)) c1 = (if ?X then 1 else 0)"
      using zero by (simp add: load_alone_execs[OF fresh] c1_def)
    then have count: "count_list (execs ?F) (promises w1 ! p1) = (if ?X then 1 else 0)"
      unfolding F by (simp add: pw1)
    have res: "result_of p1 ?F
            = Some (case thrown r of None \<Rightarrow> Inr (outputPath l1) | Some e \<Rightarrow> Inl e)
          \<and> result_of p2 ?F
            = Some (case thrown r of None \<Rightarrow> Inr (outputPath l1) | Some e \<Rightarrow> Inl e)"
      if x: ?X
    proof -
      from x have x1: "must_execute l1 w" and x2: "\<not> recently_failed l1 w"
        and x3: "\<not> marker_without_source l1 w" by simp_all
      from load_alone_execute(1)[OF fresh x1 x2 x3, of r] load_alone_promises[OF fresh, of r]
      have "settled (commands (load_alone r l1 w) ! c1)
          = Some (case thrown r of None \<Rightarrow> Inr (outputPath l1) | Some e \<Rightarrow> Inl e)"
        by (simp add: result_of_def c1_def)
      then show ?thesis
        unfolding F result_of_set_promises p2 using pw2 by (simp add: nth_append)
    qed
    from count res show ?thesis by blast
  qed
  show ?thesis
  proof (intro conjI)
    show "p2 \<noteq> p1" "promises w3 ! p2 = promises w3 ! p1"
      "w3 = w2\<lparr>promises := promises w2 @ [promises w2 ! p1]\<rparr>"
      using A by blast+
    show "\<forall>es''. result_of p2 (run es'' w3) = result_of p1 (run es'' w3)"
      using B by blast
    show "\<forall>es''. count_list (execs (run es'' w3)) (promises w3 ! p1) \<le> 1"
      using C by blast
    show "\<forall>es'' q. result_of p1 (run es'' w3) = Some (Inr q) \<longrightarrow>
             q = join [''.observablehq'', ''cache'', targetPath (options l1)]"
      using D by blast
    show "\<forall>es'' c c'.
             c < length (commands (run es'' w3)) \<and> c' < length (commands (run es'' w3)) \<and>
             awaiting (commands (run es'' w3) ! c) \<noteq> Cleared \<and>
             awaiting (commands (run es'' w3) ! c') \<noteq> Cleared \<and>
             key_of (this (commands (run es'' w3) ! c))
               = key_of (this (commands (run es'' w3) ! c')) \<longrightarrow>
             c = c'"
      using E by (intro allI impI)
    show "\<forall>k r. es' = replicate k (Resume (promises w1 ! p1) r) \<and> k \<le> 12 \<longrightarrow>
             count_list
               (execs (run (replicate (12 - k) (Resume (promises w1 ! p1) r)) w3))
               (promises w1 ! p1)
               = (if must_execute l1 w \<and> \<not> recently_failed l1 w
                     \<and> \<not> marker_without_source l1 w then 1 else 0)
             \<and> (must_execute l1 w \<and> \<not> recently_failed l1 w
                  \<and> \<not> marker_without_source l1 w \<longrightarrow>
                  result_of p1 (run (replicate (12 - k) (Resume (promises w1 ! p1) r)) w3)
                    = Some (case thrown r of None \<Rightarrow> Inr (outputPath l1) | Some e \<Rightarrow> Inl e)
                  \<and> result_of p2 (run (replicate (12 - k) (Resume (promises w1 ! p1) r)) w3)
                    = Some (case thrown r of None \<Rightarrow> Inr (outputPath l1) | Some e \<Rightarrow> Inl e))"
      using F by (intro allI impI)
  qed
qed

text \<open>
  With the loader source and no cache file: the first call starts command 0, which is
  resumed twice; the second call, for the same target with \<open>useStale\<close> set, returns
  another promise, which follows command 0; after the ten resumptions left the
  production step has run once and both promises are resolved to the cache path.
\<close>

theorem load_dedup_witness:
  "runningCommands (init_process files_source 5000 42) (key_of loader_items) = None
   \<and> fst (load loader_items (init_process files_source 5000 42)) = 0
   \<and> result_of 0 (run (replicate 2 (Resume 0 exec_ok))
        (snd (load loader_items (init_process files_source 5000 42)))) = None
   \<and> fst (load loader_items_stale (run (replicate 2 (Resume 0 exec_ok))
        (snd (load loader_items (init_process files_source 5000 42))))) \<noteq> 0
   \<and> count_list (execs (run (replicate 10 (Resume 0 exec_ok))
        (snd (load loader_items_stale (run (replicate 2 (Resume 0 exec_ok))
          (snd (load loader_items (init_process files_source 5000 42)))))))) 0 = 1
   \<and> result_of 0 (run (replicate 10 (Resume 0 exec_ok))
        (snd (load loader_items_stale (run (replicate 2 (Resume 0 exec_ok))
          (snd (load loader_items (init_process files_source 5000 42)))))))
       = Some (Inr ''.observablehq/cache/data/items.csv'')
   \<and> result_of
        (fst (load loader_items_stale (run (replicate 2 (Resume 0 exec_ok))
          (snd (load loader_items (init_process files_source 5000 42))))))
        (run (replicate 10 (Resume 0 exec_ok))
          (snd (load loader_items_stale (run (replicate 2 (Resume 0 exec_ok))
            (snd (load loader_items (init_process files_source 5000 42)))))))
       = Some (Inr ''.observablehq/cache/data/items.csv'')"
proof -
  let ?w = "init_process files_source 5000 42"
  define w1 where "w1 = snd (load loader_items ?w)"
  define w2 where "w2 = run (replicate 2 (Resume 0 exec_ok)) w1"
  define p2 where "p2 = fst (load loader_items_stale w2)"
  define w3 where "w3 = snd (load loader_items_stale w2)"
  define F where "F = run (replicate 10 (Resume 0 exec_ok)) w3"
  have reach: "?w = run [] (init_process files_source 5000 42)"
    by (simp add: run_def)
  have fresh: "runningCommands ?w (key_of loader_items) = None"
    by (simp add: init_process_fields)
  have w1: "w1 = ?w\<lparr>commands := commands ?w @
          [\<lparr>this = loader_items, awaiting = AwaitStatLoader, loaderStat = None, settled = None\<rparr>],
       runningCommands := (runningCommands ?w)(key_of loader_items \<mapsto> length (commands ?w)),
       promises := promises ?w @ [length (commands ?w)]\<rparr>"
    unfolding w1_def by (simp add: load_fresh[OF fresh])
  have first: "load loader_items ?w = (0, w1)"
    unfolding w1 by (simp add: load_fresh[OF fresh] init_process_fields)
  have pr1: "promises w1 ! 0 = 0"
    unfolding w1 by (simp add: init_process_fields)
  have pending: "result_of 0 w2 = None"
    unfolding w2_def w1
    by (simp add: result_of_def run_def numeral_2_eq_2 init_process_def resume_def body_at
        loader_items_paths maybeStat_def files_source_def)
  have same: "root (options loader_items_stale) = root (options loader_items)"
    "targetPath (options loader_items_stale) = targetPath (options loader_items)"
    by (simp_all add: loader_items_def loader_items_stale_def)
  have second: "load loader_items_stale w2 = (p2, w3)"
    by (simp add: p2_def w3_def)
  have x: "must_execute loader_items ?w \<and> \<not> recently_failed loader_items ?w
      \<and> \<not> marker_without_source loader_items ?w"
    by (simp add: must_execute_def recently_failed_def marker_without_source_def
        init_process_fields loader_items_paths maybeStat_def files_source_def)
  note T = load_dedup[OF reach fresh first w2_def pending same second]
  from T have ne: "p2 \<noteq> 0"
    by blast
  have h: "replicate 2 (Resume 0 exec_ok) = replicate 2 (Resume (promises w1 ! 0) exec_ok)
      \<and> (2 :: nat) \<le> 12"
    unfolding pr1 by simp
  from T have "\<forall>k r. replicate 2 (Resume 0 exec_ok) = replicate k (Resume (promises w1 ! 0) r)
        \<and> k \<le> 12 \<longrightarrow>
      count_list (execs (run (replicate (12 - k) (Resume (promises w1 ! 0) r)) w3))
        (promises w1 ! 0)
        = (if must_execute loader_items ?w \<and> \<not> recently_failed loader_items ?w
              \<and> \<not> marker_without_source loader_items ?w then 1 else 0)
      \<and> (must_execute loader_items ?w \<and> \<not> recently_failed loader_items ?w
            \<and> \<not> marker_without_source loader_items ?w \<longrightarrow>
            result_of 0 (run (replicate (12 - k) (Resume (promises w1 ! 0) r)) w3)
              = Some (case thrown r of None \<Rightarrow> Inr (outputPath loader_items) | Some e \<Rightarrow> Inl e)
            \<and> result_of p2 (run (replicate (12 - k) (Resume (promises w1 ! 0) r)) w3)
              = Some (case thrown r of None \<Rightarrow> Inr (outputPath loader_items) | Some e \<Rightarrow> Inl e))"
    by blast
  from this[rule_format, OF h] x
  have "count_list (execs (run (replicate (12 - 2) (Resume (promises w1 ! 0) exec_ok)) w3))
        (promises w1 ! 0) = 1"
    and "result_of 0 (run (replicate (12 - 2) (Resume (promises w1 ! 0) exec_ok)) w3)
        = Some (case thrown exec_ok of None \<Rightarrow> Inr (outputPath loader_items) | Some e \<Rightarrow> Inl e)"
    and "result_of p2 (run (replicate (12 - 2) (Resume (promises w1 ! 0) exec_ok)) w3)
        = Some (case thrown exec_ok of None \<Rightarrow> Inr (outputPath loader_items) | Some e \<Rightarrow> Inl e)"
    by simp_all
  then have res: "count_list (execs F) 0 = 1"
    "result_of 0 F = Some (Inr ''.observablehq/cache/data/items.csv'')"
    "result_of p2 F = Some (Inr ''.observablehq/cache/data/items.csv'')"
    unfolding pr1 F_def by (simp_all add: exec_ok_def loader_items_paths)
  have "fst (load loader_items ?w) = 0"
    by (simp add: load_fresh[OF fresh] init_process_fields)
  with fresh pending ne res show ?thesis
    unfolding F_def w3_def p2_def w2_def w1_def by simp
qed
section \<open>The freshness check\<close>



section \<open>The error cooldown\<close>






section \<open>A missing loader source\<close>

text \<open>
  C5 does not hold of the code: \<open>load\<close> reads \<open>loaderStat!.mtimeMs\<close> whenever a cache
  file exists, and again whenever an error marker exists, and with the loader source
  absent that read throws a \<open>TypeError\<close>. For a call that is first to register its key,
  with the loader source absent and nothing else scheduled until the command has
  settled: with a cache file present the call is rejected with the \<open>TypeError\<close>, the
  production step does not run and no file changes; with no cache file and an error
  marker present, the same; only with neither of them does the call go on to the
  production step, and then settles as the production step ends.
\<close>

theorem load_missing_source:
  assumes "runningCommands w (key_of l) = None"
    and "files w (path (options l)) = None"
  shows "(files w (cachePath l) \<noteq> None \<longrightarrow>
            result_of (length (promises w)) (load_alone r l w) = Some (Inl TypeError)
            \<and> execs (load_alone r l w) = execs w
            \<and> files (load_alone r l w) = files w)
       \<and> (files w (cachePath l) = None \<and> files w (errorPath (pid w) l) \<noteq> None \<longrightarrow>
            result_of (length (promises w)) (load_alone r l w) = Some (Inl TypeError)
            \<and> execs (load_alone r l w) = execs w
            \<and> files (load_alone r l w) = files w)
       \<and> (files w (cachePath l) = None \<and> files w (errorPath (pid w) l) = None \<longrightarrow>
            result_of (length (promises w)) (load_alone r l w)
              = Some (case thrown r of None \<Rightarrow> Inr (outputPath l) | Some e \<Rightarrow> Inl e)
            \<and> execs (load_alone r l w) = execs w @ [length (commands w)])"
proof -
  have source: "maybeStat (files w) (path (options l)) = None"
    using assms(2) by (simp add: maybeStat_def)
  have rf: "\<not> recently_failed l w"
    using source by (simp add: recently_failed_def split: option.splits)
  have A: "result_of (length (promises w)) (load_alone r l w) = Some (Inl TypeError)
      \<and> execs (load_alone r l w) = execs w \<and> files (load_alone r l w) = files w"
    if "files w (cachePath l) \<noteq> None"
  proof -
    from that obtain cm where "maybeStat (files w) (cachePath l) = Some cm"
      by (auto simp: maybeStat_def)
    from load_alone_type_error_cache[OF assms(1) this source] show ?thesis by simp
  qed
  have B: "result_of (length (promises w)) (load_alone r l w) = Some (Inl TypeError)
      \<and> execs (load_alone r l w) = execs w \<and> files (load_alone r l w) = files w"
    if "files w (cachePath l) = None \<and> files w (errorPath (pid w) l) \<noteq> None"
  proof -
    from that have m: "must_execute l w"
      by (simp add: must_execute_def maybeStat_def)
    from that source have "marker_without_source l w"
      by (simp add: marker_without_source_def maybeStat_def)
    then have "recently_failed l w \<or> marker_without_source l w" by simp
    from load_alone_rejected(1,2,3)[OF assms(1) m this] rf show ?thesis by simp
  qed
  have C: "result_of (length (promises w)) (load_alone r l w)
        = Some (case thrown r of None \<Rightarrow> Inr (outputPath l) | Some e \<Rightarrow> Inl e)
      \<and> execs (load_alone r l w) = execs w @ [length (commands w)]"
    if "files w (cachePath l) = None \<and> files w (errorPath (pid w) l) = None"
  proof -
    from that have m: "must_execute l w"
      by (simp add: must_execute_def maybeStat_def)
    from that have "\<not> marker_without_source l w"
      by (simp add: marker_without_source_def maybeStat_def)
    from load_alone_execute(1,3)[OF assms(1) m rf this] show ?thesis by simp
  qed
  from A B C show ?thesis by blast
qed

text \<open>
  The example loader in process 42 with its source gone: rejected with the \<open>TypeError\<close>
  when the cache file is there, and when only an error marker is there.
\<close>

theorem load_missing_source_witness:
  "files (init_process files_orphan 5000 42) (path (options loader_items)) = None
   \<and> files (init_process files_orphan 5000 42) (cachePath loader_items) \<noteq> None
   \<and> result_of 0 (load_alone exec_ok loader_items (init_process files_orphan 5000 42))
       = Some (Inl TypeError)
   \<and> execs (load_alone exec_ok loader_items (init_process files_orphan 5000 42)) = []
   \<and> files (init_process files_marker_orphan 5000 42) (path (options loader_items)) = None
   \<and> files (init_process files_marker_orphan 5000 42) (cachePath loader_items) = None
   \<and> files (init_process files_marker_orphan 5000 42) (errorPath 42 loader_items) \<noteq> None
   \<and> result_of 0 (load_alone exec_ok loader_items (init_process files_marker_orphan 5000 42))
       = Some (Inl TypeError)
   \<and> execs (load_alone exec_ok loader_items (init_process files_marker_orphan 5000 42)) = []"
proof -
  let ?w = "init_process files_orphan 5000 42"
  let ?v = "init_process files_marker_orphan 5000 42"
  have fw: "runningCommands ?w (key_of loader_items) = None"
    and fv: "runningCommands ?v (key_of loader_items) = None"
    by (simp_all add: init_process_fields)
  have sw: "files ?w (path (options loader_items)) = None"
    and cw: "files ?w (cachePath loader_items) \<noteq> None"
    by (simp_all add: init_process_fields loader_items_paths files_orphan_def)
  have sv: "files ?v (path (options loader_items)) = None"
    and cv: "files ?v (cachePath loader_items) = None"
    and mv: "files ?v (errorPath 42 loader_items) \<noteq> None"
    by (simp_all add: init_process_fields loader_items_paths files_marker_orphan_def)
  have mv': "files ?v (cachePath loader_items) = None
      \<and> files ?v (errorPath (pid ?v) loader_items) \<noteq> None"
    using cv mv by (simp add: init_process_fields)
  from load_missing_source[OF fw sw, of exec_ok] cw
  have "result_of (length (promises ?w)) (load_alone exec_ok loader_items ?w) = Some (Inl TypeError)
      \<and> execs (load_alone exec_ok loader_items ?w) = execs ?w"
    by blast
  then have W: "result_of 0 (load_alone exec_ok loader_items ?w) = Some (Inl TypeError)"
      "execs (load_alone exec_ok loader_items ?w) = []"
    by (simp_all add: init_process_fields)
  from load_missing_source[OF fv sv, of exec_ok] mv'
  have "result_of (length (promises ?v)) (load_alone exec_ok loader_items ?v) = Some (Inl TypeError)
      \<and> execs (load_alone exec_ok loader_items ?v) = execs ?v"
    by blast
  then have V: "result_of 0 (load_alone exec_ok loader_items ?v) = Some (Inl TypeError)"
      "execs (load_alone exec_ok loader_items ?v) = []"
    by (simp_all add: init_process_fields)
  from sw cw W sv cv mv V show ?thesis by simp
qed
section \<open>Parameterized matching scans one directory\<close>

text \<open>
  A source tree in which the directory \<open>a\<close> holds the file \<open>notes.md\<close> and the
  parameterized loader \<open>[id].js\<close>, in this order, and the directory \<open>a/b\<close> does
  not exist.
\<close>

definition fs_param :: filesystem where
  "fs_param =
     \<lparr>existsSync = (\<lambda>p. p = ''src'' \<or> p = ''src/a'' \<or> p = ''src/a/notes.md''
                          \<or> p = ''src/a/[id].js''),
      readdirSync = (\<lambda>p. if p = ''src/a'' then Inr [''notes.md'', ''[id].js'']
                          else Inl (Error ''no such file or directory'' (Some ''ENOENT'')))\<rparr>"

lemma findExact_ext_same_exists:
  assumes "existsSync fs' = existsSync fs"
  shows "findExact_ext fs' rt tp us xs = findExact_ext fs rt tp us xs"
  by (induction xs) (auto simp: assms)

lemma findExact_same_listing:
  assumes "existsSync fs' = existsSync fs"
    and "readdirSync fs' (join [rt, dirname tp]) = readdirSync fs (join [rt, dirname tp])"
  shows "findExact fs' interpreters rt tp us = findExact fs interpreters rt tp us"
  using assms(2) findExact_ext_same_exists[OF assms(1)]
  by (simp add: findExact_def Let_def split: option.splits)

lemma findExact_scan_Some:
  assumes "findExact_scan interpreters rt parent tp us listing = Some l"
  shows "\<exists>pre fname post name ext interpreter.
           listing = pre @ fname # post \<and>
           (\<forall>f \<in> set pre. \<forall>n e. param_match f = Some (n, Some e) \<longrightarrow> map_of interpreters e = None) \<and>
           param_match fname = Some (name, Some ext) \<and>
           map_of interpreters ext = Some interpreter \<and>
           l = CommandLoader
                 \<lparr>root = rt, path = join [rt, parent, fname], targetPath = tp, useStale = us\<rparr>
                 (case interpreter of [] \<Rightarrow> join [rt, parent, fname] | command # _ \<Rightarrow> command)
                 ((case interpreter of [] \<Rightarrow> [] | _ # as \<Rightarrow> as @ [join [rt, parent, fname]])
                    @ [''--'' @ name, basename tp])"
  using assms
proof (induction listing)
  case Nil
  then show ?case by simp
next
  case (Cons f fs)
  show ?case
  proof (cases "\<exists>name ext interpreter.
      param_match f = Some (name, Some ext) \<and> map_of interpreters ext = Some interpreter")
    case True
    then obtain name ext interpreter where
      m: "param_match f = Some (name, Some ext)" "map_of interpreters ext = Some interpreter"
      by blast
    with Cons.prems have
      "l = CommandLoader
             \<lparr>root = rt, path = join [rt, parent, f], targetPath = tp, useStale = us\<rparr>
             (case interpreter of [] \<Rightarrow> join [rt, parent, f] | command # _ \<Rightarrow> command)
             ((case interpreter of [] \<Rightarrow> [] | _ # as \<Rightarrow> as @ [join [rt, parent, f]])
                @ [''--'' @ name, basename tp])"
      by (simp add: Let_def)
    with m show ?thesis
      by (intro exI[of _ "[]"] exI[of _ f] exI[of _ fs] exI[of _ name] exI[of _ ext]
            exI[of _ interpreter]) simp
  next
    case False
    then have skip: "findExact_scan interpreters rt parent tp us (f # fs) =
        findExact_scan interpreters rt parent tp us fs"
      by (auto split: option.splits)
    from Cons.IH[OF Cons.prems[unfolded skip]] obtain pre fname post name ext interpreter where
      h: "fs = pre @ fname # post"
         "\<forall>f \<in> set pre. \<forall>n e. param_match f = Some (n, Some e) \<longrightarrow> map_of interpreters e = None"
         "param_match fname = Some (name, Some ext)"
         "map_of interpreters ext = Some interpreter"
         "l = CommandLoader
                \<lparr>root = rt, path = join [rt, parent, fname], targetPath = tp, useStale = us\<rparr>
                (case interpreter of [] \<Rightarrow> join [rt, parent, fname] | command # _ \<Rightarrow> command)
                ((case interpreter of [] \<Rightarrow> [] | _ # as \<Rightarrow> as @ [join [rt, parent, fname]])
                   @ [''--'' @ name, basename tp])"
      by blast
    from False have "\<forall>n e. param_match f = Some (n, Some e) \<longrightarrow> map_of interpreters e = None"
      by auto
    with h show ?thesis
      by (intro exI[of _ "f # pre"] exI[of _ fname] exI[of _ post] exI[of _ name] exI[of _ ext]
            exI[of _ interpreter]) simp
  qed
qed

lemma findExact_scan_skip:
  assumes "\<forall>n e. param_match f = Some (n, Some e) \<longrightarrow> map_of interpreters e = None"
  shows "findExact_scan interpreters rt parent tp us (f # listing)
           = findExact_scan interpreters rt parent tp us listing"
proof (cases "param_match f")
  case None
  then show ?thesis by simp
next
  case (Some m)
  obtain n ext where m: "m = (n, ext)" by (cases m)
  show ?thesis
  proof (cases ext)
    case None
    with Some m show ?thesis by simp
  next
    case (Some e)
    with \<open>param_match f = Some m\<close> m assms have "map_of interpreters e = None" by simp
    with Some \<open>param_match f = Some m\<close> m show ?thesis by simp
  qed
qed

lemma findExact_scan_first:
  assumes "\<forall>f \<in> set pre. \<forall>n e. param_match f = Some (n, Some e) \<longrightarrow>
             map_of interpreters e = None"
    and "param_match fname = Some (name, Some ext)"
    and "map_of interpreters ext = Some interpreter"
  shows "findExact_scan interpreters rt parent tp us (pre @ fname # post)
           = Some (CommandLoader
                \<lparr>root = rt, path = join [rt, parent, fname], targetPath = tp, useStale = us\<rparr>
                (case interpreter of [] \<Rightarrow> join [rt, parent, fname] | command # _ \<Rightarrow> command)
                ((case interpreter of [] \<Rightarrow> [] | _ # as \<Rightarrow> as @ [join [rt, parent, fname]])
                   @ [''--'' @ name, basename tp]))"
  using assms(1)
proof (induction pre)
  case Nil
  from assms(2,3) show ?case by (simp add: Let_def)
next
  case (Cons f pre)
  then have "\<forall>n e. param_match f = Some (n, Some e) \<longrightarrow> map_of interpreters e = None"
    by simp
  from findExact_scan_skip[OF this] Cons show ?case by simp
qed

lemma findExact_scan_none:
  assumes "\<forall>f \<in> set listing. \<forall>n e. param_match f = Some (n, Some e) \<longrightarrow>
             map_of interpreters e = None"
  shows "findExact_scan interpreters rt parent tp us listing = None"
  using assms
proof (induction listing)
  case Nil
  then show ?case by simp
next
  case (Cons f listing)
  then have "\<forall>n e. param_match f = Some (n, Some e) \<longrightarrow> map_of interpreters e = None"
    by simp
  from findExact_scan_skip[OF this] Cons show ?case by simp
qed

text \<open>
  C6, as the claim states it, fails: for the target \<open>a/b/c.csv\<close> the listing of
  \<open>a/b\<close> throws a not-found error, the next ancestor \<open>a\<close> holds \<open>[id].js\<close>, which
  the scan of \<open>a\<close> would turn into a loader, and yet \<open>findExact\<close> returns no loader:
  the walk does not continue to the next ancestor.
\<close>

theorem findExact_no_upward_walk:
  "findExact fs_param defaultInterpreters ''src'' ''a/b/c.csv'' False = Inr None
   \<and> readdirSync fs_param (join [''src'', dirname ''a/b/c.csv''])
       = Inl (Error ''no such file or directory'' (Some ''ENOENT''))
   \<and> readdirSync fs_param (join [''src'', dirname (dirname ''a/b/c.csv'')])
       = Inr [''notes.md'', ''[id].js'']
   \<and> findExact_scan defaultInterpreters ''src'' (dirname (dirname ''a/b/c.csv'')) ''a/b/c.csv''
         False [''notes.md'', ''[id].js'']
       = Some (CommandLoader
           \<lparr>root = ''src'', path = ''src/a/[id].js'', targetPath = ''a/b/c.csv'', useStale = False\<rparr>
           ''node'' [''--no-warnings=ExperimentalWarning'', ''src/a/[id].js'', ''--id'', ''c.csv''])"
  by code_simp

text \<open>
  C6, amended: when no extension matches, \<open>findExact\<close> lists exactly one directory, the
  directory of the target path. A not-found error of that listing is swallowed and the
  result is "no loader"; any other error propagates. The entries of the listing are
  scanned in order: the first entry that is a bracket-parameter name whose last extension
  has a registered interpreter gives the loader, whatever follows it, and the loader
  passes the parameter as \<open>--name\<close> followed by the base name of the target; entries
  before it that are no such name are skipped; a listing without such an entry gives "no
  loader". A loader is returned in no other case. No other directory is consulted: two
  file systems that agree on \<open>existsSync\<close> and on the listing of that one directory
  give the same result.
\<close>

theorem findExact_parameterized:
  assumes "findExact_ext fs rt tp us interpreters = None"
  shows "(\<forall>e. readdirSync fs (join [rt, dirname tp]) = Inl e \<longrightarrow>
            findExact fs interpreters rt tp us = (if isEnoent e then Inr None else Inl e))
       \<and> (\<forall>pre fname post name ext interpreter.
            readdirSync fs (join [rt, dirname tp]) = Inr (pre @ fname # post) \<and>
            (\<forall>f \<in> set pre. \<forall>n e. param_match f = Some (n, Some e) \<longrightarrow>
               map_of interpreters e = None) \<and>
            param_match fname = Some (name, Some ext) \<and>
            map_of interpreters ext = Some interpreter \<longrightarrow>
            findExact fs interpreters rt tp us
              = Inr (Some (CommandLoader
                     \<lparr>root = rt, path = join [rt, dirname tp, fname], targetPath = tp,
                      useStale = us\<rparr>
                     (case interpreter of [] \<Rightarrow> join [rt, dirname tp, fname]
                      | command # _ \<Rightarrow> command)
                     ((case interpreter of [] \<Rightarrow> []
                       | _ # as \<Rightarrow> as @ [join [rt, dirname tp, fname]])
                        @ [''--'' @ name, basename tp]))))
       \<and> (\<forall>listing.
            readdirSync fs (join [rt, dirname tp]) = Inr listing \<and>
            (\<forall>f \<in> set listing. \<forall>n e. param_match f = Some (n, Some e) \<longrightarrow>
               map_of interpreters e = None) \<longrightarrow>
            findExact fs interpreters rt tp us = Inr None)
       \<and> (\<forall>l. findExact fs interpreters rt tp us = Inr (Some l) \<longrightarrow>
            (\<exists>pre fname post name ext interpreter.
               readdirSync fs (join [rt, dirname tp]) = Inr (pre @ fname # post) \<and>
               (\<forall>f \<in> set pre. \<forall>n e. param_match f = Some (n, Some e) \<longrightarrow>
                  map_of interpreters e = None) \<and>
               param_match fname = Some (name, Some ext) \<and>
               map_of interpreters ext = Some interpreter))
       \<and> (\<forall>fs'. existsSync fs' = existsSync fs \<and>
                readdirSync fs' (join [rt, dirname tp]) = readdirSync fs (join [rt, dirname tp]) \<longrightarrow>
                findExact fs' interpreters rt tp us = findExact fs interpreters rt tp us)"
proof -
  have A: "findExact fs interpreters rt tp us = (if isEnoent e then Inr None else Inl e)"
    if "readdirSync fs (join [rt, dirname tp]) = Inl e" for e
    using that assms by (simp add: findExact_def)
  have scan: "findExact fs interpreters rt tp us
      = Inr (findExact_scan interpreters rt (dirname tp) tp us listing)"
    if "readdirSync fs (join [rt, dirname tp]) = Inr listing" for listing
    using that assms by (simp add: findExact_def)
  have B: "findExact fs interpreters rt tp us
      = Inr (Some (CommandLoader
             \<lparr>root = rt, path = join [rt, dirname tp, fname], targetPath = tp, useStale = us\<rparr>
             (case interpreter of [] \<Rightarrow> join [rt, dirname tp, fname] | command # _ \<Rightarrow> command)
             ((case interpreter of [] \<Rightarrow> [] | _ # as \<Rightarrow> as @ [join [rt, dirname tp, fname]])
                @ [''--'' @ name, basename tp])))"
    if h: "readdirSync fs (join [rt, dirname tp]) = Inr (pre @ fname # post) \<and>
        (\<forall>f \<in> set pre. \<forall>n e. param_match f = Some (n, Some e) \<longrightarrow>
           map_of interpreters e = None) \<and>
        param_match fname = Some (name, Some ext) \<and>
        map_of interpreters ext = Some interpreter"
    for pre fname post name ext interpreter
  proof -
    from h have l: "readdirSync fs (join [rt, dirname tp]) = Inr (pre @ fname # post)"
      and p: "\<forall>f \<in> set pre. \<forall>n e. param_match f = Some (n, Some e) \<longrightarrow>
           map_of interpreters e = None"
      and m: "param_match fname = Some (name, Some ext)"
      and i: "map_of interpreters ext = Some interpreter"
      by blast+
    show ?thesis
      unfolding scan[OF l] findExact_scan_first[OF p m i] ..
  qed
  have C: "findExact fs interpreters rt tp us = Inr None"
    if h: "readdirSync fs (join [rt, dirname tp]) = Inr listing \<and>
        (\<forall>f \<in> set listing. \<forall>n e. param_match f = Some (n, Some e) \<longrightarrow>
           map_of interpreters e = None)"
    for listing
  proof -
    from h have l: "readdirSync fs (join [rt, dirname tp]) = Inr listing"
      and p: "\<forall>f \<in> set listing. \<forall>n e. param_match f = Some (n, Some e) \<longrightarrow>
           map_of interpreters e = None"
      by blast+
    show ?thesis
      unfolding scan[OF l] findExact_scan_none[OF p] ..
  qed
  have D: "\<exists>pre fname post name ext interpreter.
        readdirSync fs (join [rt, dirname tp]) = Inr (pre @ fname # post) \<and>
        (\<forall>f \<in> set pre. \<forall>n e. param_match f = Some (n, Some e) \<longrightarrow>
           map_of interpreters e = None) \<and>
        param_match fname = Some (name, Some ext) \<and>
        map_of interpreters ext = Some interpreter"
    if l: "findExact fs interpreters rt tp us = Inr (Some l)" for l
  proof (cases "readdirSync fs (join [rt, dirname tp])")
    case (Inl e)
    with A[OF Inl] l show ?thesis by (simp split: if_splits)
  next
    case (Inr listing)
    with scan[OF Inr] l
    have "findExact_scan interpreters rt (dirname tp) tp us listing = Some l"
      by simp
    from findExact_scan_Some[OF this] Inr show ?thesis by blast
  qed
  have E: "findExact fs' interpreters rt tp us = findExact fs interpreters rt tp us"
    if "existsSync fs' = existsSync fs \<and>
     readdirSync fs' (join [rt, dirname tp]) = readdirSync fs (join [rt, dirname tp])"
    for fs' :: filesystem
    using that findExact_same_listing by blast
  show ?thesis
  proof (intro conjI)
    show "\<forall>e. readdirSync fs (join [rt, dirname tp]) = Inl e \<longrightarrow>
            findExact fs interpreters rt tp us = (if isEnoent e then Inr None else Inl e)"
      using A by blast
    show "\<forall>pre fname post name ext interpreter.
            readdirSync fs (join [rt, dirname tp]) = Inr (pre @ fname # post) \<and>
            (\<forall>f \<in> set pre. \<forall>n e. param_match f = Some (n, Some e) \<longrightarrow>
               map_of interpreters e = None) \<and>
            param_match fname = Some (name, Some ext) \<and>
            map_of interpreters ext = Some interpreter \<longrightarrow>
            findExact fs interpreters rt tp us
              = Inr (Some (CommandLoader
                     \<lparr>root = rt, path = join [rt, dirname tp, fname], targetPath = tp,
                      useStale = us\<rparr>
                     (case interpreter of [] \<Rightarrow> join [rt, dirname tp, fname]
                      | command # _ \<Rightarrow> command)
                     ((case interpreter of [] \<Rightarrow> []
                       | _ # as \<Rightarrow> as @ [join [rt, dirname tp, fname]])
                        @ [''--'' @ name, basename tp])))"
      using B by (intro allI impI)
    show "\<forall>listing.
            readdirSync fs (join [rt, dirname tp]) = Inr listing \<and>
            (\<forall>f \<in> set listing. \<forall>n e. param_match f = Some (n, Some e) \<longrightarrow>
               map_of interpreters e = None) \<longrightarrow>
            findExact fs interpreters rt tp us = Inr None"
      using C by (intro allI impI)
    show "\<forall>l. findExact fs interpreters rt tp us = Inr (Some l) \<longrightarrow>
            (\<exists>pre fname post name ext interpreter.
               readdirSync fs (join [rt, dirname tp]) = Inr (pre @ fname # post) \<and>
               (\<forall>f \<in> set pre. \<forall>n e. param_match f = Some (n, Some e) \<longrightarrow>
                  map_of interpreters e = None) \<and>
               param_match fname = Some (name, Some ext) \<and>
               map_of interpreters ext = Some interpreter)"
      using D by (intro allI impI)
    show "\<forall>fs'. existsSync fs' = existsSync fs \<and>
                readdirSync fs' (join [rt, dirname tp]) = readdirSync fs (join [rt, dirname tp]) \<longrightarrow>
                findExact fs' interpreters rt tp us = findExact fs interpreters rt tp us"
      using E by (intro allI impI)
  qed
qed

text \<open>
  The target \<open>a/c.csv\<close>: the listing of \<open>a\<close> holds \<open>notes.md\<close>, which is skipped,
  and then \<open>[id].js\<close>, which gives the loader.
\<close>

theorem findExact_parameterized_witness:
  "findExact_ext fs_param ''src'' ''a/c.csv'' False defaultInterpreters = None
   \<and> readdirSync fs_param (join [''src'', dirname ''a/c.csv'']) = Inr ([''notes.md''] @ ''[id].js'' # [])
   \<and> param_match ''notes.md'' = None
   \<and> param_match ''[id].js'' = Some (''id'', Some ''.js'')
   \<and> findExact fs_param defaultInterpreters ''src'' ''a/c.csv'' False
       = Inr (Some (CommandLoader
           \<lparr>root = ''src'', path = ''src/a/[id].js'', targetPath = ''a/c.csv'', useStale = False\<rparr>
           ''node'' [''--no-warnings=ExperimentalWarning'', ''src/a/[id].js'', ''--id'', ''c.csv'']))"
proof -
  let ?i = "[''node'', ''--no-warnings=ExperimentalWarning'']"
  have h: "findExact_ext fs_param ''src'' ''a/c.csv'' False defaultInterpreters = None"
    by code_simp
  have ls: "readdirSync fs_param (join [''src'', dirname ''a/c.csv''])
      = Inr ([''notes.md''] @ ''[id].js'' # [])"
    by code_simp
  have n: "param_match ''notes.md'' = None"
    by code_simp
  have m: "param_match ''[id].js'' = Some (''id'', Some ''.js'')"
    by code_simp
  have i: "map_of defaultInterpreters ''.js'' = Some ?i"
    by code_simp
  have paths: "join [''src'', dirname ''a/c.csv'', ''[id].js''] = ''src/a/[id].js''"
    "basename ''a/c.csv'' = ''c.csv''"
    by code_simp+
  have prem: "readdirSync fs_param (join [''src'', dirname ''a/c.csv''])
        = Inr ([''notes.md''] @ ''[id].js'' # []) \<and>
      (\<forall>f \<in> set [''notes.md'']. \<forall>n e. param_match f = Some (n, Some e) \<longrightarrow>
         map_of defaultInterpreters e = None) \<and>
      param_match ''[id].js'' = Some (''id'', Some ''.js'') \<and>
      map_of defaultInterpreters ''.js'' = Some ?i"
    using ls n m i by simp
  from findExact_parameterized[OF h, THEN conjunct2, THEN conjunct1, rule_format, OF prem]
  have "findExact fs_param defaultInterpreters ''src'' ''a/c.csv'' False
      = Inr (Some (CommandLoader
           \<lparr>root = ''src'', path = join [''src'', dirname ''a/c.csv'', ''[id].js''],
            targetPath = ''a/c.csv'', useStale = False\<rparr>
           (case ?i of [] \<Rightarrow> join [''src'', dirname ''a/c.csv'', ''[id].js'']
            | command # _ \<Rightarrow> command)
           ((case ?i of [] \<Rightarrow> []
             | _ # as \<Rightarrow> as @ [join [''src'', dirname ''a/c.csv'', ''[id].js'']])
              @ [''--'' @ ''id'', basename ''a/c.csv''])))" .
  then have "findExact fs_param defaultInterpreters ''src'' ''a/c.csv'' False
       = Inr (Some (CommandLoader
           \<lparr>root = ''src'', path = ''src/a/[id].js'', targetPath = ''a/c.csv'', useStale = False\<rparr>
           ''node'' [''--no-warnings=ExperimentalWarning'', ''src/a/[id].js'', ''--id'', ''c.csv'']))"
    unfolding paths by simp
  with h ls n m show ?thesis by simp
qed
section \<open>The archive fallback of find\<close>

lemma find_dir_root: "dirname d = d \<Longrightarrow> find_dir ex rt d = None"
  by (subst find_dir.simps) (simp add: Let_def)

lemma find_dir_folder: "ex (join [rt, d]) \<Longrightarrow> find_dir ex rt d = None"
  by (subst find_dir.simps) (simp add: Let_def)

lemma find_dir_parent:
  "dirname d \<noteq> d \<Longrightarrow> \<not> ex (join [rt, d]) \<Longrightarrow> ex (join [rt, dirname d]) \<Longrightarrow>
   find_dir ex rt d = Some d"
  by (subst find_dir.simps) (simp add: Let_def)

lemma find_dir_up:
  "dirname d \<noteq> d \<Longrightarrow> \<not> ex (join [rt, d]) \<Longrightarrow> \<not> ex (join [rt, dirname d]) \<Longrightarrow>
   find_dir ex rt d = find_dir ex rt (dirname d)"
  by (subst find_dir.simps) (simp add: Let_def)

lemma dirname_slash: "dirname ''/'' = ''/''"
  by (simp add: dirname_def)

lemma dirname_double_slash: "dirname ''//'' = ''/''"
  by (simp add: dirname_def)

lemma find_dir_special:
  assumes "d = ''.'' \<or> d = ''/'' \<or> d = ''//''"
  shows "find_dir ex rt d = None"
proof -
  have "find_dir ex rt ''//'' = None"
  proof (cases "ex (join [rt, ''//''])")
    case True
    then show ?thesis by (rule find_dir_folder)
  next
    case False
    then have "\<not> ex (join [rt, dirname ''//''])"
      by (simp add: dirname_double_slash join_root_double_slash)
    with False have "find_dir ex rt ''//'' = find_dir ex rt (dirname ''//'')"
      by (intro find_dir_up) (simp_all add: dirname_double_slash)
    then show ?thesis
      by (simp add: dirname_double_slash find_dir_root dirname_slash)
  qed
  moreover have "find_dir ex rt ''.'' = None" "find_dir ex rt ''/'' = None"
    using find_dir_root[OF dirname_dot] find_dir_root[OF dirname_slash] by simp_all
  ultimately show ?thesis
    using assms by (elim disjE) simp_all
qed

text \<open>
  The ancestors the walk visits: number \<open>k\<close> is \<open>k\<close> applications of \<open>dirname\<close> to
  the directory of the target path. The walk goes past an ancestor when the ancestor is
  not the source root and neither it nor its parent exists.
\<close>

definition walk_passes :: "(string \<Rightarrow> bool) \<Rightarrow> string \<Rightarrow> string \<Rightarrow> nat \<Rightarrow> bool" where
  "walk_passes ex rt d k =
     (dirname ((dirname ^^ k) d) \<noteq> (dirname ^^ k) d \<and>
      \<not> ex (join [rt, (dirname ^^ k) d]) \<and>
      \<not> ex (join [rt, dirname ((dirname ^^ k) d)]))"

lemma find_dir_passes:
  "(\<forall>k<n. walk_passes ex rt d k) \<Longrightarrow> find_dir ex rt d = find_dir ex rt ((dirname ^^ n) d)"
proof (induction n)
  case 0
  then show ?case by simp
next
  case (Suc n)
  then have "find_dir ex rt d = find_dir ex rt ((dirname ^^ n) d)" by simp
  moreover from Suc.prems have "walk_passes ex rt d n" by simp
  then have "find_dir ex rt ((dirname ^^ n) d) = find_dir ex rt (dirname ((dirname ^^ n) d))"
    unfolding walk_passes_def by (intro find_dir_up) simp_all
  ultimately show ?case by simp
qed

lemma find_dir_Some:
  "find_dir ex rt d = Some a \<Longrightarrow>
   \<exists>n. a = (dirname ^^ n) d \<and> (\<forall>k<n. walk_passes ex rt d k) \<and>
       dirname a \<noteq> a \<and> \<not> ex (join [rt, a]) \<and> ex (join [rt, dirname a])"
proof (induction ex rt d rule: find_dir.induct)
  case (1 ex rt dir)
  show ?case
  proof (cases "dirname dir \<noteq> dir \<and> \<not> ex (join [rt, dir])")
    case False
    then have "find_dir ex rt dir = None"
      using find_dir_root find_dir_folder by blast
    with "1.prems" show ?thesis by simp
  next
    case True
    show ?thesis
    proof (cases "ex (join [rt, dirname dir])")
      case p: True
      with True have "find_dir ex rt dir = Some dir" by (simp add: find_dir_parent)
      with "1.prems" have "a = dir" by simp
      with True p have "a = (dirname ^^ 0) dir \<and> (\<forall>k<0. walk_passes ex rt dir k) \<and>
          dirname a \<noteq> a \<and> \<not> ex (join [rt, a]) \<and> ex (join [rt, dirname a])"
        by simp
      then show ?thesis by blast
    next
      case p: False
      with True have up: "find_dir ex rt dir = find_dir ex rt (dirname dir)"
        by (simp add: find_dir_up)
      with "1.prems" have "find_dir ex rt (dirname dir) = Some a" by simp
      with "1.IH"[OF refl] True p obtain n where
        n: "a = (dirname ^^ n) (dirname dir)" "\<forall>k<n. walk_passes ex rt (dirname dir) k"
           "dirname a \<noteq> a" "\<not> ex (join [rt, a])" "ex (join [rt, dirname a])"
        by blast
      have first: "walk_passes ex rt dir 0"
        using True p by (simp add: walk_passes_def)
      have "walk_passes ex rt dir k" if "k < Suc n" for k
      proof (cases k)
        case 0
        with first show ?thesis by simp
      next
        case (Suc j)
        with that n(2) have "walk_passes ex rt (dirname dir) j" by simp
        then show ?thesis
          unfolding Suc walk_passes_def by (simp add: funpow_swap1)
      qed
      moreover have "a = (dirname ^^ Suc n) dir"
        using n(1) by (simp add: funpow_swap1)
      ultimately show ?thesis using n(3-5) by blast
    qed
  qed
qed

lemma find_dir_cut: "find_dir ex rt d = Some a \<Longrightarrow> a = d \<or> cut_of d a"
proof (induction ex rt d rule: find_dir.induct)
  case (1 ex rt dir)
  show ?case
  proof (cases "dirname dir \<noteq> dir \<and> \<not> ex (join [rt, dir])")
    case False
    then have "find_dir ex rt dir = None"
      using find_dir_root find_dir_folder by blast
    with "1.prems" show ?thesis by simp
  next
    case True
    show ?thesis
    proof (cases "ex (join [rt, dirname dir])")
      case p: True
      with True have "find_dir ex rt dir = Some dir" by (simp add: find_dir_parent)
      with "1.prems" show ?thesis by simp
    next
      case p: False
      with True have "find_dir ex rt dir = find_dir ex rt (dirname dir)"
        by (simp add: find_dir_up)
      with "1.prems" have s: "find_dir ex rt (dirname dir) = Some a" by simp
      with "1.IH"[OF refl] True p have "a = dirname dir \<or> cut_of (dirname dir) a"
        by blast
      moreover from s have "dirname dir \<noteq> ''.'' \<and> dirname dir \<noteq> ''/'' \<and> dirname dir \<noteq> ''//''"
        using find_dir_special[of "dirname dir" ex rt] by auto
      then have "cut_of dir (dirname dir)" by (simp add: dirname_cut)
      ultimately show ?thesis using cut_of_trans by blast
    qed
  qed
qed

lemma find_dir_remainder:
  assumes "find_dir ex rt (dirname tp) = Some a"
  shows "tp = a @ CHR ''/'' # drop (length a + 1) tp"
proof -
  from assms have "dirname tp \<noteq> ''.'' \<and> dirname tp \<noteq> ''/'' \<and> dirname tp \<noteq> ''//''"
    using find_dir_special[of "dirname tp" ex rt] by auto
  then have "cut_of tp (dirname tp)" by (simp add: dirname_cut)
  with find_dir_cut[OF assms] have "cut_of tp a"
    using cut_of_trans by blast
  then show ?thesis by (rule cut_of_decompose)
qed

lemma inflatePath_new_Extractor: "inflatePath (new_Extractor cls pre ip opts) = Some ip"
  by (cases cls) (simp_all add: TarGzExtractor_def)

lemma find_archive_skip:
  assumes "\<forall>(e, c) \<in> set before.
      \<not> existsSync fs (join [rt, d @ e]) \<and> findExact fs interpreters rt (d @ e) us = Inr None"
  shows "find_archive fs interpreters rt tp us d (before @ rest)
           = find_archive fs interpreters rt tp us d rest"
  using assms by (induction before) (auto simp: Let_def)

lemma find_archive_static:
  assumes "existsSync fs (join [rt, d @ ext])"
  shows "find_archive fs interpreters rt tp us d ((ext, cls) # rest)
           = Inr (Some (new_Extractor cls (StaticArchive (d @ ext)) (drop (length d + 1) tp)
               \<lparr>root = rt, path = join [rt, d @ ext], targetPath = tp, useStale = us\<rparr>))"
  using assms by (simp add: Let_def)

lemma find_archive_loader:
  assumes "\<not> existsSync fs (join [rt, d @ ext])"
    and "findExact fs interpreters rt (d @ ext) us = Inr (Some al)"
  shows "find_archive fs interpreters rt tp us d ((ext, cls) # rest)
           = Inr (Some (new_Extractor cls (LoaderArchive al) (drop (length d + 1) tp)
               \<lparr>root = rt, path = path (options al), targetPath = tp, useStale = us\<rparr>))"
  using assms by (simp add: Let_def)

lemma find_archive_inflatePath:
  "find_archive fs interpreters rt tp us d xs = Inr (Some l) \<Longrightarrow>
   inflatePath l = Some (drop (length d + 1) tp)"
proof (induction xs)
  case Nil
  then show ?case by simp
next
  case (Cons x xs)
  obtain ext cls where x: "x = (ext, cls)" by (cases x)
  show ?case
  proof (cases "existsSync fs (join [rt, d @ ext])")
    case True
    with Cons.prems show ?thesis
      unfolding x find_archive_static[OF True] by (auto simp: inflatePath_new_Extractor)
  next
    case False
    show ?thesis
    proof (cases "findExact fs interpreters rt (d @ ext) us")
      case (Inl e)
      with False Cons.prems show ?thesis by (simp add: x Let_def)
    next
      case (Inr r)
      show ?thesis
      proof (cases r)
        case None
        with False Inr Cons show ?thesis by (simp add: x Let_def)
      next
        case (Some al)
        with Inr have fe: "findExact fs interpreters rt (d @ ext) us = Inr (Some al)" by simp
        from Cons.prems show ?thesis
          unfolding x find_archive_loader[OF False fe]
          by (auto simp: inflatePath_new_Extractor)
      qed
    qed
  qed
qed

text \<open>
  A source root with the static archives \<open>archive.tar\<close> and \<open>archive.tgz\<close> and no
  directory \<open>archive\<close>.
\<close>

definition fs_archive :: filesystem where
  "fs_archive =
     \<lparr>existsSync = (\<lambda>p. p \<in> set [''src'', ''src/archive.tar'', ''src/archive.tgz'']),
      readdirSync = (\<lambda>p. if p = ''src'' then Inr [''archive.tar'', ''archive.tgz'']
                          else Inl (Error ''no such file or directory'' (Some ''ENOENT'')))\<rparr>"

text \<open>
  C7: when \<open>findExact\<close> finds no loader, \<open>find\<close> visits the ancestors of the target
  path upward from its directory. If the walk comes to an ancestor that exists on disk
  (or to the source root), the result is "no loader". If it comes to an ancestor \<open>a\<close>
  that does not exist and whose parent does, the target path is \<open>a\<close>, a slash and a
  remainder, and the extensions \<open>.zip\<close>, \<open>.tar\<close>, \<open>.tar.gz\<close>, \<open>.tgz\<close> are tried in
  this order: once every earlier extension gave neither a static file nor a loader, the
  next one gives the extractor of its class over the static file \<open>a + ext\<close> if that
  exists, and otherwise over the loader that \<open>findExact\<close> finds for \<open>a + ext\<close>; the
  extractor's \<open>inflatePath\<close> is the remainder.
\<close>

theorem find_archive_fallback:
  assumes "findExact fs interpreters rt tp us = Inr None"
  shows "(\<forall>n. (\<forall>k<n. walk_passes (existsSync fs) rt (dirname tp) k) \<and>
              (dirname ((dirname ^^ n) (dirname tp)) = (dirname ^^ n) (dirname tp) \<or>
               existsSync fs (join [rt, (dirname ^^ n) (dirname tp)])) \<longrightarrow>
              find_loader fs interpreters rt tp us = Inr None)
       \<and> (\<forall>n a. a = (dirname ^^ n) (dirname tp) \<and>
              (\<forall>k<n. walk_passes (existsSync fs) rt (dirname tp) k) \<and>
              dirname a \<noteq> a \<and> \<not> existsSync fs (join [rt, a]) \<and>
              existsSync fs (join [rt, dirname a]) \<longrightarrow>
              tp = a @ CHR ''/'' # drop (length a + 1) tp \<and>
              (\<forall>before ext cls rest.
                 extractors = before @ (ext, cls) # rest \<and>
                 (\<forall>(e, c) \<in> set before.
                    \<not> existsSync fs (join [rt, a @ e]) \<and>
                    findExact fs interpreters rt (a @ e) us = Inr None) \<longrightarrow>
                 (existsSync fs (join [rt, a @ ext]) \<longrightarrow>
                    find_loader fs interpreters rt tp us
                      = Inr (Some (new_Extractor cls (StaticArchive (a @ ext))
                          (drop (length a + 1) tp)
                          \<lparr>root = rt, path = join [rt, a @ ext], targetPath = tp,
                           useStale = us\<rparr>))) \<and>
                 (\<forall>al. \<not> existsSync fs (join [rt, a @ ext]) \<and>
                    findExact fs interpreters rt (a @ ext) us = Inr (Some al) \<longrightarrow>
                    find_loader fs interpreters rt tp us
                      = Inr (Some (new_Extractor cls (LoaderArchive al)
                          (drop (length a + 1) tp)
                          \<lparr>root = rt, path = path (options al), targetPath = tp,
                           useStale = us\<rparr>)))))
       \<and> map fst extractors = [''.zip'', ''.tar'', ''.tar.gz'', ''.tgz'']
       \<and> (\<forall>l. find_loader fs interpreters rt tp us = Inr (Some l) \<longrightarrow>
              (\<exists>a ip. find_dir (existsSync fs) rt (dirname tp) = Some a \<and>
                 inflatePath l = Some ip \<and> tp = a @ CHR ''/'' # ip))"
proof (intro conjI allI impI)
  fix n
  assume a: "(\<forall>k<n. walk_passes (existsSync fs) rt (dirname tp) k) \<and>
              (dirname ((dirname ^^ n) (dirname tp)) = (dirname ^^ n) (dirname tp) \<or>
               existsSync fs (join [rt, (dirname ^^ n) (dirname tp)]))"
  then have "find_dir (existsSync fs) rt (dirname tp)
      = find_dir (existsSync fs) rt ((dirname ^^ n) (dirname tp))"
    by (intro find_dir_passes) simp
  also from a have "\<dots> = None"
    using find_dir_root find_dir_folder by blast
  finally show "find_loader fs interpreters rt tp us = Inr None"
    using assms by (simp add: find_loader_def)
next
  fix n a
  assume a: "a = (dirname ^^ n) (dirname tp) \<and>
              (\<forall>k<n. walk_passes (existsSync fs) rt (dirname tp) k) \<and>
              dirname a \<noteq> a \<and> \<not> existsSync fs (join [rt, a]) \<and>
              existsSync fs (join [rt, dirname a])"
  then have "find_dir (existsSync fs) rt (dirname tp) = find_dir (existsSync fs) rt a"
    using find_dir_passes by blast
  also from a have "\<dots> = Some a"
    using find_dir_parent[of a "existsSync fs" rt] by blast
  finally have fd: "find_dir (existsSync fs) rt (dirname tp) = Some a" .
  then show "tp = a @ CHR ''/'' # drop (length a + 1) tp"
    by (rule find_dir_remainder)
  from fd assms have fl: "find_loader fs interpreters rt tp us
      = find_archive fs interpreters rt tp us a extractors"
    by (simp add: find_loader_def)
  fix before ext cls rest
  assume b: "extractors = before @ (ext, cls) # rest \<and>
                 (\<forall>(e, c) \<in> set before.
                    \<not> existsSync fs (join [rt, a @ e]) \<and>
                    findExact fs interpreters rt (a @ e) us = Inr None)"
  then have sk: "find_archive fs interpreters rt tp us a extractors
      = find_archive fs interpreters rt tp us a ((ext, cls) # rest)"
    using find_archive_skip[of before fs rt a interpreters us tp "(ext, cls) # rest"] by simp
  show "find_loader fs interpreters rt tp us
      = Inr (Some (new_Extractor cls (StaticArchive (a @ ext)) (drop (length a + 1) tp)
          \<lparr>root = rt, path = join [rt, a @ ext], targetPath = tp, useStale = us\<rparr>))"
    if "existsSync fs (join [rt, a @ ext])"
    unfolding fl sk using that by (rule find_archive_static)
  fix al
  assume "\<not> existsSync fs (join [rt, a @ ext]) \<and>
      findExact fs interpreters rt (a @ ext) us = Inr (Some al)"
  then show "find_loader fs interpreters rt tp us
      = Inr (Some (new_Extractor cls (LoaderArchive al) (drop (length a + 1) tp)
          \<lparr>root = rt, path = path (options al), targetPath = tp, useStale = us\<rparr>))"
    unfolding fl sk using find_archive_loader by blast
next
  show "map fst extractors = [''.zip'', ''.tar'', ''.tar.gz'', ''.tgz'']"
    by (simp add: extractors_def)
next
  fix l
  assume l: "find_loader fs interpreters rt tp us = Inr (Some l)"
  with assms obtain a where
    fd: "find_dir (existsSync fs) rt (dirname tp) = Some a"
    and fa: "find_archive fs interpreters rt tp us a extractors = Inr (Some l)"
    by (auto simp: find_loader_def split: option.splits)
  from fa have "inflatePath l = Some (drop (length a + 1) tp)"
    by (rule find_archive_inflatePath)
  moreover from fd have "tp = a @ CHR ''/'' # drop (length a + 1) tp"
    by (rule find_dir_remainder)
  ultimately show "\<exists>a ip. find_dir (existsSync fs) rt (dirname tp) = Some a \<and>
                 inflatePath l = Some ip \<and> tp = a @ CHR ''/'' # ip"
    using fd by blast
qed

theorem find_archive_fallback_witness:
  "findExact fs_archive defaultInterpreters ''src'' ''archive/inner/report.json'' False = Inr None
   \<and> find_loader fs_archive defaultInterpreters ''src'' ''archive/inner/report.json'' False
       = Inr (Some (TarExtractor
           \<lparr>root = ''src'', path = ''src/archive.tar'', targetPath = ''archive/inner/report.json'',
            useStale = False\<rparr>
           (StaticArchive ''archive.tar'') ''inner/report.json'' False))"
proof -
  let ?tp = "''archive/inner/report.json''"
  have h: "findExact fs_archive defaultInterpreters ''src'' ?tp False = Inr None"
    by code_simp
  have p0: "walk_passes (existsSync fs_archive) ''src'' (dirname ?tp) 0"
    by code_simp
  have a: "(dirname ^^ Suc 0) (dirname ?tp) = ''archive''"
    by code_simp
  have stop: "dirname ''archive'' \<noteq> ''archive'' \<and>
      \<not> existsSync fs_archive (join [''src'', ''archive'']) \<and>
      existsSync fs_archive (join [''src'', dirname ''archive''])"
    by code_simp
  have premA: "''archive'' = (dirname ^^ Suc 0) (dirname ?tp) \<and>
      (\<forall>k<Suc 0. walk_passes (existsSync fs_archive) ''src'' (dirname ?tp) k) \<and>
      dirname ''archive'' \<noteq> ''archive'' \<and>
      \<not> existsSync fs_archive (join [''src'', ''archive'']) \<and>
      existsSync fs_archive (join [''src'', dirname ''archive''])"
    using p0 stop unfolding a by simp
  have zip: "\<not> existsSync fs_archive (join [''src'', ''archive'' @ ''.zip'']) \<and>
      findExact fs_archive defaultInterpreters ''src'' (''archive'' @ ''.zip'') False = Inr None"
    by code_simp
  have premB: "extractors = [(''.zip'', ZipExtractorClass)] @ (''.tar'', TarExtractorClass)
        # [(''.tar.gz'', TarGzExtractorClass), (''.tgz'', TarGzExtractorClass)] \<and>
      (\<forall>(e, c) \<in> set [(''.zip'', ZipExtractorClass)].
         \<not> existsSync fs_archive (join [''src'', ''archive'' @ e]) \<and>
         findExact fs_archive defaultInterpreters ''src'' (''archive'' @ e) False = Inr None)"
    using zip by (simp add: extractors_def)
  have tar: "existsSync fs_archive (join [''src'', ''archive'' @ ''.tar''])"
    by code_simp
  note T = find_archive_fallback[OF h, THEN conjunct2, THEN conjunct1, THEN spec, THEN spec,
      THEN mp, OF premA, THEN conjunct2, THEN spec, THEN spec, THEN spec, THEN spec, THEN mp,
      OF premB, THEN conjunct1, THEN mp, OF tar]
  have ip: "drop (length ''archive'' + 1) ?tp = ''inner/report.json''"
    by simp
  have pa: "join [''src'', ''archive'' @ ''.tar''] = ''src/archive.tar''"
    by code_simp
  from T show ?thesis
    using h unfolding ip pa by simp
qed

section \<open>Tar extraction\<close>

lemma tar_entries_loop_found:
  assumes "\<forall>b \<in> set before. header_name b \<noteq> ip" and "header_name e = ip"
  shows "tar_entries_loop h ip (before @ e # rest) ending
           = (case output_pipe h (entry_data e) of
                None \<Rightarrow> Some \<lparr>piped = entry_data e, resumed = map header_name before,
                               thrown = None\<rparr>
              | Some (n, err) \<Rightarrow> Some \<lparr>piped = take n (entry_data e),
                                       resumed = map header_name before, thrown = Some err\<rparr>)"
  using assms
  by (induction before) (simp_all add: pipe_to_output_def split: option.splits)

lemma tar_entries_loop_missing:
  assumes "\<forall>b \<in> set entries. header_name b \<noteq> ip"
  shows "tar_entries_loop h ip entries ending
           = map_option (\<lambda>r. r\<lparr>resumed := map header_name entries @ resumed r\<rparr>) ending"
  using assms
proof (induction entries)
  case Nil
  then show ?case by (simp add: option.map_ident)
next
  case (Cons b entries)
  then show ?case by (simp add: option.map_comp comp_def)
qed

text \<open>
  An archive host for the examples: one tar archive, stored plain as \<open>data.tar\<close> and
  gzipped as \<open>data.tgz\<close>, in a source root that holds nothing else.
\<close>

definition host_tar :: host where
  "host_tar =
     \<lparr>spawn = (\<lambda>command args. ([], Inr (Some 0))),
      readFile = (\<lambda>p. Inl (Error ''no such file or directory'' (Some ''ENOENT''))),
      loadAsync = (\<lambda>bytes. Inl (Error ''not a zip file'' None)),
      createReadStream = (\<lambda>p. if p = ''src/data.tar'' then (''TAR'', None) else
                               if p = ''src/data.tgz'' then (''GZ:TAR'', None)
                               else ([], Some (Error ''no such file or directory''
                                 (Some ''ENOENT'')))),
      createGunzip = (\<lambda>bytes. if take 3 bytes = ''GZ:'' then (drop 3 bytes, None)
                               else ([], Some (Error ''incorrect header check''
                                 (Some ''Z_DATA_ERROR'')))),
      tar_extract = (\<lambda>bytes. if bytes = ''TAR''
                  then ([\<lparr>header_name = ''readme.txt'', entry_data = ''hello''\<rparr>,
                         \<lparr>header_name = ''a/b.csv'', entry_data = ''1,2''\<rparr>,
                         \<lparr>header_name = ''a/c.csv'', entry_data = ''3,4''\<rparr>,
                         \<lparr>header_name = ''a/b.csv'', entry_data = ''5,6''\<rparr>], None)
                  else ([], None)),
      output_pipe = (\<lambda>bytes. None)\<rparr>"

definition fs_tar :: filesystem where
  "fs_tar =
     \<lparr>existsSync = (\<lambda>p. p \<in> set [''src'', ''src/data.tar'', ''src/data.tgz'']),
      readdirSync = (\<lambda>p. if p = ''src'' then Inr [''data.tar'', ''data.tgz'']
                          else Inl (Error ''no such file or directory'' (Some ''ENOENT'')))\<rparr>"

text \<open>
  C8: the extractor that \<open>find\<close> builds for the extension \<open>.tar\<close> is a tar extractor
  that does not decompress, the one for \<open>.tar.gz\<close> and \<open>.tgz\<close> a tar extractor that
  does. For a tar extractor whose preload step gave the archive path \<open>p\<close>, the entries
  scanned are those decoded from the bytes of the archive, passed through the
  decompressor first exactly when the extractor decompresses. If an entry is named
  \<open>inflatePath\<close>, the entries before the first such entry are drained and add nothing to
  the output, that entry's bytes and no others are piped to the output, \<open>exec\<close>
  settles (it resolves when the output stream finishes and rejects with the error of the
  output stream otherwise), and neither the entries after it nor the way the archive ends
  play a part. If no entry has that name, every entry is drained and nothing is piped;
  \<open>exec\<close> then throws the error \<open>file not found\<close> with code \<open>ENOENT\<close> when the
  archive was read, decompressed and decoded to its end, throws the decoder's error when
  the archive is malformed, and never settles when reading or decompressing failed.
\<close>

theorem TarExtractor_exec_scan:
  assumes "preload_result pre nested = Some (Inr p)"
    and "createReadStream h (join [root opts, p]) = (input, input_error)"
    and "(if gz then createGunzip h input else (input, None)) = (bytes, gunzip_error)"
    and "tar_extract h bytes = (entries, tar_error)"
  shows "(\<forall>ext cls pre' ip' opts'. (ext, cls) \<in> set extractors \<longrightarrow>
            (ext = ''.tar'' \<longrightarrow>
               new_Extractor cls pre' ip' opts' = TarExtractor opts' pre' ip' False) \<and>
            (ext = ''.tar.gz'' \<or> ext = ''.tgz'' \<longrightarrow>
               new_Extractor cls pre' ip' opts' = TarExtractor opts' pre' ip' True))
       \<and> (\<forall>before e rest.
            entries = before @ e # rest \<and> header_name e = ip \<and>
            (\<forall>b \<in> set before. header_name b \<noteq> ip) \<longrightarrow>
            exec h (TarExtractor opts pre ip gz) nested
              = (case output_pipe h (entry_data e) of
                   None \<Rightarrow> Some \<lparr>piped = entry_data e, resumed = map header_name before,
                                  thrown = None\<rparr>
                 | Some (n, err) \<Rightarrow> Some \<lparr>piped = take n (entry_data e),
                                          resumed = map header_name before,
                                          thrown = Some err\<rparr>))
       \<and> ((\<forall>b \<in> set entries. header_name b \<noteq> ip) \<longrightarrow>
            exec h (TarExtractor opts pre ip gz) nested
              = (case tar_error of
                   Some err \<Rightarrow> Some \<lparr>piped = [], resumed = map header_name entries,
                                     thrown = Some err\<rparr>
                 | None \<Rightarrow>
                     if input_error = None \<and> gunzip_error = None
                     then Some \<lparr>piped = [], resumed = map header_name entries,
                                thrown = Some (Error ''file not found'' (Some ''ENOENT''))\<rparr>
                     else None))
       \<and> isEnoent (Error ''file not found'' (Some ''ENOENT''))"
proof -
  have ex: "exec h (TarExtractor opts pre ip gz) nested
      = tar_entries_loop h ip entries (tar_ending input_error gunzip_error tar_error)"
    using assms by simp
  have table: "(ext = ''.tar'' \<longrightarrow>
         new_Extractor cls pre' ip' opts' = TarExtractor opts' pre' ip' False) \<and>
      (ext = ''.tar.gz'' \<or> ext = ''.tgz'' \<longrightarrow>
         new_Extractor cls pre' ip' opts' = TarExtractor opts' pre' ip' True)"
    if "(ext, cls) \<in> set extractors" for ext cls pre' ip' opts'
    using that by (auto simp: extractors_def TarGzExtractor_def)
  have found: "exec h (TarExtractor opts pre ip gz) nested
      = (case output_pipe h (entry_data e) of
           None \<Rightarrow> Some \<lparr>piped = entry_data e, resumed = map header_name before, thrown = None\<rparr>
         | Some (n, err) \<Rightarrow> Some \<lparr>piped = take n (entry_data e),
                                  resumed = map header_name before, thrown = Some err\<rparr>)"
    if "entries = before @ e # rest \<and> header_name e = ip \<and>
        (\<forall>b \<in> set before. header_name b \<noteq> ip)"
    for before e rest
    unfolding ex using that tar_entries_loop_found[of before ip e h rest] by simp
  have missing: "exec h (TarExtractor opts pre ip gz) nested
      = (case tar_error of
           Some err \<Rightarrow> Some \<lparr>piped = [], resumed = map header_name entries, thrown = Some err\<rparr>
         | None \<Rightarrow>
             if input_error = None \<and> gunzip_error = None
             then Some \<lparr>piped = [], resumed = map header_name entries,
                        thrown = Some (Error ''file not found'' (Some ''ENOENT''))\<rparr>
             else None)"
    if "\<forall>b \<in> set entries. header_name b \<noteq> ip"
    unfolding ex tar_entries_loop_missing[OF that]
    by (simp add: tar_ending_def exec_throw_def split: option.splits)
  have enoent: "isEnoent (Error ''file not found'' (Some ''ENOENT''))"
    by (simp add: isEnoent_def)
  show ?thesis
  proof (intro conjI)
    show "\<forall>ext cls pre' ip' opts'. (ext, cls) \<in> set extractors \<longrightarrow>
            (ext = ''.tar'' \<longrightarrow>
               new_Extractor cls pre' ip' opts' = TarExtractor opts' pre' ip' False) \<and>
            (ext = ''.tar.gz'' \<or> ext = ''.tgz'' \<longrightarrow>
               new_Extractor cls pre' ip' opts' = TarExtractor opts' pre' ip' True)"
      using table by (intro allI impI)
    show "\<forall>before e rest.
            entries = before @ e # rest \<and> header_name e = ip \<and>
            (\<forall>b \<in> set before. header_name b \<noteq> ip) \<longrightarrow>
            exec h (TarExtractor opts pre ip gz) nested
              = (case output_pipe h (entry_data e) of
                   None \<Rightarrow> Some \<lparr>piped = entry_data e, resumed = map header_name before,
                                  thrown = None\<rparr>
                 | Some (n, err) \<Rightarrow> Some \<lparr>piped = take n (entry_data e),
                                          resumed = map header_name before,
                                          thrown = Some err\<rparr>)"
      using found by (intro allI impI)
    show "(\<forall>b \<in> set entries. header_name b \<noteq> ip) \<longrightarrow>
            exec h (TarExtractor opts pre ip gz) nested
              = (case tar_error of
                   Some err \<Rightarrow> Some \<lparr>piped = [], resumed = map header_name entries,
                                     thrown = Some err\<rparr>
                 | None \<Rightarrow>
                     if input_error = None \<and> gunzip_error = None
                     then Some \<lparr>piped = [], resumed = map header_name entries,
                                thrown = Some (Error ''file not found'' (Some ''ENOENT''))\<rparr>
                     else None)"
      using missing by (intro impI)
    show "isEnoent (Error ''file not found'' (Some ''ENOENT''))" by (rule enoent)
  qed
qed

text \<open>
  The target \<open>data/a/b.csv\<close>: \<open>find\<close> builds a decompressing tar extractor over
  \<open>data.tgz\<close> when the plain archive is not there, and its \<open>exec\<close> drains
  \<open>readme.txt\<close> and pipes the first entry named \<open>a/b.csv\<close>.
\<close>

theorem TarExtractor_exec_scan_witness:
  "find_loader (fs_tar\<lparr>existsSync := (\<lambda>p. p \<in> set [''src'', ''src/data.tgz''])\<rparr>)
       defaultInterpreters ''src'' ''data/a/b.csv'' False
     = Inr (Some (TarExtractor
         \<lparr>root = ''src'', path = ''src/data.tgz'', targetPath = ''data/a/b.csv'', useStale = False\<rparr>
         (StaticArchive ''data.tgz'') ''a/b.csv'' True))
   \<and> preload_result (StaticArchive ''data.tgz'') None = Some (Inr ''data.tgz'')
   \<and> exec host_tar
        (TarExtractor
           \<lparr>root = ''src'', path = ''src/data.tgz'', targetPath = ''data/a/b.csv'', useStale = False\<rparr>
           (StaticArchive ''data.tgz'') ''a/b.csv'' True) None
       = Some \<lparr>piped = ''1,2'', resumed = [''readme.txt''], thrown = None\<rparr>"
proof -
  let ?opts = "\<lparr>root = ''src'', path = ''src/data.tgz'', targetPath = ''data/a/b.csv'',
                useStale = False\<rparr>"
  let ?before = "[\<lparr>header_name = ''readme.txt'', entry_data = ''hello''\<rparr>]"
  let ?e = "\<lparr>header_name = ''a/b.csv'', entry_data = ''1,2''\<rparr>"
  let ?rest = "[\<lparr>header_name = ''a/c.csv'', entry_data = ''3,4''\<rparr>,
                \<lparr>header_name = ''a/b.csv'', entry_data = ''5,6''\<rparr>]"
  have built: "find_loader (fs_tar\<lparr>existsSync := (\<lambda>p. p \<in> set [''src'', ''src/data.tgz''])\<rparr>)
       defaultInterpreters ''src'' ''data/a/b.csv'' False
     = Inr (Some (TarExtractor ?opts (StaticArchive ''data.tgz'') ''a/b.csv'' True))"
    by code_simp
  have pre: "preload_result (StaticArchive ''data.tgz'') None = Some (Inr ''data.tgz'')"
    by simp
  have p: "join [root ?opts, ''data.tgz''] = ''src/data.tgz''"
    by code_simp
  have input: "createReadStream host_tar (join [root ?opts, ''data.tgz'']) = (''GZ:TAR'', None)"
    unfolding p by (simp add: host_tar_def)
  have bytes: "(if True then createGunzip host_tar ''GZ:TAR'' else (''GZ:TAR'', None))
      = (''TAR'', None)"
    by (simp add: host_tar_def)
  have entries: "tar_extract host_tar ''TAR'' = (?before @ ?e # ?rest, None)"
    by (simp add: host_tar_def)
  have prem: "?before @ ?e # ?rest = ?before @ ?e # ?rest \<and> header_name ?e = ''a/b.csv'' \<and>
      (\<forall>b \<in> set ?before. header_name b \<noteq> ''a/b.csv'')"
    by simp
  from TarExtractor_exec_scan[OF pre input bytes entries, THEN conjunct2, THEN conjunct1,
      rule_format, OF prem]
  have "exec host_tar (TarExtractor ?opts (StaticArchive ''data.tgz'') ''a/b.csv'' True) None
      = (case output_pipe host_tar (entry_data ?e) of
           None \<Rightarrow> Some \<lparr>piped = entry_data ?e, resumed = map header_name ?before, thrown = None\<rparr>
         | Some (n, err) \<Rightarrow> Some \<lparr>piped = take n (entry_data ?e),
                                  resumed = map header_name ?before, thrown = Some err\<rparr>)" .
  then have "exec host_tar (TarExtractor ?opts (StaticArchive ''data.tgz'') ''a/b.csv'' True) None
      = Some \<lparr>piped = ''1,2'', resumed = [''readme.txt''], thrown = None\<rparr>"
    by (simp add: host_tar_def)
  with built pre show ?thesis by simp
qed

text \<open>
  The same target with the plain archive in place: \<open>find\<close> builds a tar extractor that
  does not decompress. And a decompressing extractor over bytes that are not gzipped never
  settles.
\<close>

lemma TarExtractor_examples:
  "find_loader fs_tar defaultInterpreters ''src'' ''data/a/b.csv'' False
     = Inr (Some (TarExtractor
         \<lparr>root = ''src'', path = ''src/data.tar'', targetPath = ''data/a/b.csv'', useStale = False\<rparr>
         (StaticArchive ''data.tar'') ''a/b.csv'' False))"
  "exec host_tar
     (TarExtractor
        \<lparr>root = ''src'', path = ''src/data.tar'', targetPath = ''data/a/b.csv'', useStale = False\<rparr>
        (StaticArchive ''data.tar'') ''a/b.csv'' True) None = None"
  "exec host_tar
     (TarExtractor
        \<lparr>root = ''src'', path = ''src/data.tar'', targetPath = ''data/a/b.csv'', useStale = False\<rparr>
        (StaticArchive ''data.tar'') ''a/d.csv'' False) None
     = Some \<lparr>piped = [], resumed = [''readme.txt'', ''a/b.csv'', ''a/c.csv'', ''a/b.csv''],
             thrown = Some (Error ''file not found'' (Some ''ENOENT''))\<rparr>"
  by code_simp+
section \<open>The hash of a generated file follows the loader's modification time\<close>

text \<open>\<open>String\<close> tells two numbers apart.\<close>

lemma digit_char_inj: "a < 10 \<Longrightarrow> b < 10 \<Longrightarrow> digit_char a = digit_char b \<Longrightarrow> a = b"
proof -
  assume "a < 10" "b < 10" "digit_char a = digit_char b"
  then have "(of_char (digit_char a) :: nat) = of_char (digit_char b)" by simp
  with \<open>a < 10\<close> \<open>b < 10\<close> show "a = b" by (simp add: of_char_digit_char)
qed

lemma map_digit_char_inj:
  assumes "list_all (\<lambda>d. d < 10) xs" and "list_all (\<lambda>d. d < 10) ys"
    and "map digit_char xs = map digit_char ys"
  shows "xs = ys"
  using assms
proof (induction xs arbitrary: ys)
  case Nil
  then show ?case by simp
next
  case (Cons x xs)
  then obtain y ys' where ys: "ys = y # ys'" by (cases ys) auto
  with Cons.prems have "x = y" by (auto intro: digit_char_inj)
  moreover from Cons.prems ys have "xs = ys'" by (intro Cons.IH) auto
  ultimately show ?case using ys by simp
qed

definition unsigned :: "number \<Rightarrow> string" where
  "unsigned n =
     string_of_nat (num_whole n)
     @ (if num_fraction n = [] then [] else CHR ''.'' # map digit_char (num_fraction n))"

lemma String_unsigned: "String n = (if num_negative n then ''-'' else []) @ unsigned n"
  by (simp add: String_def unsigned_def)

lemma unsigned_hd: "unsigned n \<noteq> [] \<and> hd (unsigned n) \<noteq> CHR ''-''"
  using string_of_nat_not_Nil[of "num_whole n"] string_of_nat_hd[of "num_whole n"]
  by (simp add: unsigned_def)

lemma unsigned_whole:
  "takeWhile (\<lambda>c. c \<noteq> CHR ''.'') (unsigned n) = string_of_nat (num_whole n)"
proof -
  have "\<forall>c \<in> set (string_of_nat (num_whole n)). c \<noteq> CHR ''.''"
    using string_of_nat_no_dot by metis
  then show ?thesis
    by (simp add: unsigned_def takeWhile_append2)
qed

lemma unsigned_fraction:
  "drop (length (string_of_nat (num_whole n))) (unsigned n)
     = (if num_fraction n = [] then [] else CHR ''.'' # map digit_char (num_fraction n))"
  by (simp add: unsigned_def)

lemma String_inj:
  assumes "number_ok m" and "number_ok n" and "String m = String n"
  shows "m = n"
proof -
  have sign: "num_negative m = num_negative n"
  proof (rule ccontr)
    assume "num_negative m \<noteq> num_negative n"
    then consider "num_negative m" "\<not> num_negative n" | "\<not> num_negative m" "num_negative n"
      by blast
    then show False
    proof cases
      case 1
      with assms(3) have "CHR ''-'' # unsigned m = unsigned n"
        by (simp add: String_unsigned)
      then have "hd (unsigned n) = CHR ''-''" by (metis list.sel(1))
      with unsigned_hd[of n] show False by simp
    next
      case 2
      with assms(3) have "unsigned m = CHR ''-'' # unsigned n"
        by (simp add: String_unsigned)
      then have "hd (unsigned m) = CHR ''-''" by simp
      with unsigned_hd[of m] show False by simp
    qed
  qed
  with assms(3) have u: "unsigned m = unsigned n"
    by (simp add: String_unsigned)
  have "string_of_nat (num_whole m) = string_of_nat (num_whole n)"
    using unsigned_whole[of m] unsigned_whole[of n] u by simp
  then have whole: "num_whole m = num_whole n"
    by (rule string_of_nat_inj)
  have "(if num_fraction m = [] then [] else CHR ''.'' # map digit_char (num_fraction m))
      = (if num_fraction n = [] then [] else CHR ''.'' # map digit_char (num_fraction n))"
    using unsigned_fraction[of m] unsigned_fraction[of n] u whole by simp
  then have "map digit_char (num_fraction m) = map digit_char (num_fraction n)"
    by (auto split: if_splits)
  with assms(1,2) have fraction: "num_fraction m = num_fraction n"
    by (intro map_digit_char_inj) (simp_all add: number_ok_def)
  from sign whole fraction show ?thesis
    by (intro number.equality) simp_all
qed

lemma getSourceFileHash_via_loader:
  assumes "\<not> existsSync fs (join [rt, name])"
    and "find_loader fs interpreters rt name False = Inr (Some l)"
  shows "getSourceFileHash env fs interpreters rt name
           = Inr (case getFileInfo env rt (relative env rt (path (options l))) of
                    None \<Rightarrow> sha256 env []
                  | Some info \<Rightarrow>
                      if relative env rt (path (options l)) = name then hash info
                      else sha256 env (hash info @ String (mtimeMs info)))"
  using assms by (simp add: getSourceFileHash_def getSourceFilePath_def split: option.splits)

lemma getSourceFileHash_direct:
  assumes "existsSync fs (join [rt, name])"
  shows "getSourceFileHash env fs interpreters rt name
           = Inr (case getFileInfo env rt name of
                    None \<Rightarrow> sha256 env [] | Some info \<Rightarrow> hash info)"
  using assms by (simp add: getSourceFileHash_def getSourceFilePath_def split: option.splits)

text \<open>
  A source root with the loader \<open>data/items.csv.py\<close> and the static file
  \<open>data/notes.txt\<close>. The file-info provider of the example knows the static file and
  gives the loader source the info it is told to give, or none; \<open>relative\<close> cuts the
  root off; the digest function of the example prefixes its input.
\<close>

definition fs_hash :: filesystem where
  "fs_hash =
     \<lparr>existsSync = (\<lambda>p. p \<in> set [''src'', ''src/data'', ''src/data/items.csv.py'',
                                   ''src/data/notes.txt'']),
      readdirSync = (\<lambda>p. if p = ''src/data'' then Inr [''items.csv.py'', ''notes.txt'']
                          else Inl (Error ''no such file or directory'' (Some ''ENOENT'')))\<rparr>"

definition env_hash :: "FileInfo option \<Rightarrow> hash_env" where
  "env_hash info =
     \<lparr>getFileInfo = (\<lambda>r p.
        if r = ''src'' \<and> p = ''data/items.csv.py'' then info
        else if r = ''src'' \<and> p = ''data/notes.txt''
          then Some \<lparr>hash = ''f00d'',
                     mtimeMs = \<lparr>num_negative = False, num_whole = 5, num_fraction = []\<rparr>\<rparr>
        else None),
      relative = (\<lambda>r p. drop (Suc (length r)) p),
      sha256 = (\<lambda>bytes. ''sha256:'' @ bytes)\<rparr>"

definition loader_hash :: loader where
  "loader_hash =
     CommandLoader
       \<lparr>root = ''src'', path = ''src/data/items.csv.py'', targetPath = ''data/items.csv'',
        useStale = False\<rparr>
       ''python3'' [''src/data/items.csv.py'']"

lemma fs_hash_loader:
  "\<not> existsSync fs_hash (join [''src'', ''data/items.csv''])"
  "find_loader fs_hash defaultInterpreters ''src'' ''data/items.csv'' False
     = Inr (Some loader_hash)"
  "path (options loader_hash) = ''src/data/items.csv.py''"
  by code_simp+

text \<open>
  C9, as the claim states it, fails: \<open>data/items.csv\<close> does not exist under the root
  and resolves to the loader \<open>data/items.csv.py\<close>, whose source exists; when the
  file-info provider has nothing for that source (it is not readable, say), the result is
  the digest of the empty input, in which neither the content of the loader source nor
  its modification time has a part.
\<close>

theorem getSourceFileHash_no_info:
  "\<not> existsSync fs_hash (join [''src'', ''data/items.csv''])
   \<and> find_loader fs_hash defaultInterpreters ''src'' ''data/items.csv'' False
       = Inr (Some loader_hash)
   \<and> existsSync fs_hash (path (options loader_hash))
   \<and> getSourceFileHash (env_hash None) fs_hash defaultInterpreters ''src'' ''data/items.csv''
       = Inr (sha256 (env_hash None) [])"
proof -
  have "existsSync fs_hash (path (options loader_hash))"
    by code_simp
  moreover have "getSourceFileHash (env_hash None) fs_hash defaultInterpreters ''src''
      ''data/items.csv'' = Inr (sha256 (env_hash None) [])"
    unfolding getSourceFileHash_via_loader[OF fs_hash_loader(1,2)] fs_hash_loader(3)
    by (simp add: env_hash_def)
  ultimately show ?thesis using fs_hash_loader(1,2) by simp
qed

text \<open>
  C9, amended: for a name that does not exist under the root and resolves to a loader,
  \<open>getSourceFileHash\<close> asks the file-info provider for the loader source, by its path
  relative to the root. With the info at hand (and that path other than the name), the
  result is the digest of the content hash followed by the modification time as
  \<open>String\<close> writes it; two provider states that agree on the content hash and differ in
  the modification time feed different bytes to the digest function (the digests then
  differ unless the digest function collides on them). With no info the result is the
  digest of the empty input. For a name that exists under the root, the result is that
  file's content hash alone when the provider has its info, and the digest of the empty
  input when it has not.
\<close>

theorem getSourceFileHash_mtime:
  "(\<not> existsSync fs (join [rt, name]) \<and>
    find_loader fs interpreters rt name False = Inr (Some l) \<longrightarrow>
      (\<forall>info. getFileInfo env rt (relative env rt (path (options l))) = Some info \<and>
              relative env rt (path (options l)) \<noteq> name \<longrightarrow>
         getSourceFileHash env fs interpreters rt name
           = Inr (sha256 env (hash info @ String (mtimeMs info))) \<and>
         (\<forall>env' info'.
            relative env' = relative env \<and>
            getFileInfo env' rt (relative env rt (path (options l))) = Some info' \<and>
            hash info' = hash info \<and> mtimeMs info' \<noteq> mtimeMs info \<and>
            number_ok (mtimeMs info) \<and> number_ok (mtimeMs info') \<longrightarrow>
              getSourceFileHash env' fs interpreters rt name
                = Inr (sha256 env' (hash info' @ String (mtimeMs info'))) \<and>
              hash info' @ String (mtimeMs info') \<noteq> hash info @ String (mtimeMs info)))
      \<and> (\<forall>info. getFileInfo env rt (relative env rt (path (options l))) = Some info \<and>
              relative env rt (path (options l)) = name \<longrightarrow>
           getSourceFileHash env fs interpreters rt name = Inr (hash info))
      \<and> (getFileInfo env rt (relative env rt (path (options l))) = None \<longrightarrow>
           getSourceFileHash env fs interpreters rt name = Inr (sha256 env [])))
   \<and> (existsSync fs (join [rt, name]) \<longrightarrow>
        (\<forall>info. getFileInfo env rt name = Some info \<longrightarrow>
           getSourceFileHash env fs interpreters rt name = Inr (hash info))
        \<and> (getFileInfo env rt name = None \<longrightarrow>
             getSourceFileHash env fs interpreters rt name = Inr (sha256 env [])))"
proof -
  have A: "getSourceFileHash env fs interpreters rt name
           = Inr (sha256 env (hash info @ String (mtimeMs info))) \<and>
         (\<forall>env' info'.
            relative env' = relative env \<and>
            getFileInfo env' rt (relative env rt (path (options l))) = Some info' \<and>
            hash info' = hash info \<and> mtimeMs info' \<noteq> mtimeMs info \<and>
            number_ok (mtimeMs info) \<and> number_ok (mtimeMs info') \<longrightarrow>
              getSourceFileHash env' fs interpreters rt name
                = Inr (sha256 env' (hash info' @ String (mtimeMs info'))) \<and>
              hash info' @ String (mtimeMs info') \<noteq> hash info @ String (mtimeMs info))"
    if a: "\<not> existsSync fs (join [rt, name]) \<and>
        find_loader fs interpreters rt name False = Inr (Some l)"
      and b: "getFileInfo env rt (relative env rt (path (options l))) = Some info \<and>
        relative env rt (path (options l)) \<noteq> name" for info
  proof (intro conjI allI impI)
    from a have a1: "\<not> existsSync fs (join [rt, name])"
      and a2: "find_loader fs interpreters rt name False = Inr (Some l)" by simp_all
    show "getSourceFileHash env fs interpreters rt name
           = Inr (sha256 env (hash info @ String (mtimeMs info)))"
      unfolding getSourceFileHash_via_loader[OF a1 a2] using b by simp
    fix env' :: hash_env and info' :: FileInfo
    assume c: "relative env' = relative env \<and>
            getFileInfo env' rt (relative env rt (path (options l))) = Some info' \<and>
            hash info' = hash info \<and> mtimeMs info' \<noteq> mtimeMs info \<and>
            number_ok (mtimeMs info) \<and> number_ok (mtimeMs info')"
    show "getSourceFileHash env' fs interpreters rt name
                = Inr (sha256 env' (hash info' @ String (mtimeMs info')))"
      unfolding getSourceFileHash_via_loader[OF a1 a2] using b c by simp
    have "String (mtimeMs info') \<noteq> String (mtimeMs info)"
      using String_inj[of "mtimeMs info'" "mtimeMs info"] c by blast
    with c show "hash info' @ String (mtimeMs info') \<noteq> hash info @ String (mtimeMs info)"
      by simp
  qed
  have B: "getSourceFileHash env fs interpreters rt name = Inr (hash info)"
    if a: "\<not> existsSync fs (join [rt, name]) \<and>
        find_loader fs interpreters rt name False = Inr (Some l)"
      and b: "getFileInfo env rt (relative env rt (path (options l))) = Some info \<and>
        relative env rt (path (options l)) = name" for info
  proof -
    from a have a1: "\<not> existsSync fs (join [rt, name])"
      and a2: "find_loader fs interpreters rt name False = Inr (Some l)" by simp_all
    from b have b1: "getFileInfo env rt (relative env rt (path (options l))) = Some info"
      and b2: "relative env rt (path (options l)) = name" by blast+
    show ?thesis
      unfolding getSourceFileHash_via_loader[OF a1 a2] b1 using b2 by simp
  qed
  have C: "getSourceFileHash env fs interpreters rt name = Inr (sha256 env [])"
    if a: "\<not> existsSync fs (join [rt, name]) \<and>
        find_loader fs interpreters rt name False = Inr (Some l)"
      and b: "getFileInfo env rt (relative env rt (path (options l))) = None"
  proof -
    from a have a1: "\<not> existsSync fs (join [rt, name])"
      and a2: "find_loader fs interpreters rt name False = Inr (Some l)" by simp_all
    show ?thesis
      unfolding getSourceFileHash_via_loader[OF a1 a2] using b by simp
  qed
  have D: "getSourceFileHash env fs interpreters rt name = Inr (hash info)"
    if "existsSync fs (join [rt, name])" "getFileInfo env rt name = Some info" for info
    unfolding getSourceFileHash_direct[OF that(1)] using that(2) by simp
  have E: "getSourceFileHash env fs interpreters rt name = Inr (sha256 env [])"
    if "existsSync fs (join [rt, name])" "getFileInfo env rt name = None"
    unfolding getSourceFileHash_direct[OF that(1)] using that(2) by simp
  show ?thesis
    using A B C D E by blast
qed

text \<open>
  The loader source with the content hash \<open>c0ffee\<close>, modified at \<open>1000.499\<close> and
  then touched at \<open>1000.5\<close>.
\<close>

theorem getSourceFileHash_mtime_witness:
  "\<not> existsSync fs_hash (join [''src'', ''data/items.csv''])
   \<and> find_loader fs_hash defaultInterpreters ''src'' ''data/items.csv'' False
       = Inr (Some loader_hash)
   \<and> getSourceFileHash
        (env_hash (Some \<lparr>hash = ''c0ffee'',
           mtimeMs = \<lparr>num_negative = False, num_whole = 1000, num_fraction = [4, 9, 9]\<rparr>\<rparr>))
        fs_hash defaultInterpreters ''src'' ''data/items.csv''
       = Inr ''sha256:c0ffee1000.499''
   \<and> getSourceFileHash
        (env_hash (Some \<lparr>hash = ''c0ffee'',
           mtimeMs = \<lparr>num_negative = False, num_whole = 1000, num_fraction = [5]\<rparr>\<rparr>))
        fs_hash defaultInterpreters ''src'' ''data/items.csv''
       = Inr ''sha256:c0ffee1000.5''"
proof -
  let ?m = "\<lparr>num_negative = False, num_whole = 1000, num_fraction = [4, 9, 9]\<rparr>"
  let ?m' = "\<lparr>num_negative = False, num_whole = 1000, num_fraction = [5]\<rparr>"
  let ?info = "\<lparr>hash = ''c0ffee'', mtimeMs = ?m\<rparr>"
  let ?info' = "\<lparr>hash = ''c0ffee'', mtimeMs = ?m'\<rparr>"
  let ?env = "env_hash (Some ?info)" and ?env' = "env_hash (Some ?info')"
  have rel: "relative ?env ''src'' (path (options loader_hash)) = ''data/items.csv.py''"
    unfolding fs_hash_loader(3) by (simp add: env_hash_def)
  have a: "\<not> existsSync fs_hash (join [''src'', ''data/items.csv'']) \<and>
      find_loader fs_hash defaultInterpreters ''src'' ''data/items.csv'' False
        = Inr (Some loader_hash)"
    using fs_hash_loader(1,2) by simp
  have b: "getFileInfo ?env ''src'' (relative ?env ''src'' (path (options loader_hash)))
        = Some ?info \<and>
      relative ?env ''src'' (path (options loader_hash)) \<noteq> ''data/items.csv''"
    unfolding rel by (simp add: env_hash_def)
  have c: "relative ?env' = relative ?env \<and>
      getFileInfo ?env' ''src'' (relative ?env ''src'' (path (options loader_hash)))
        = Some ?info' \<and>
      hash ?info' = hash ?info \<and> mtimeMs ?info' \<noteq> mtimeMs ?info \<and>
      number_ok (mtimeMs ?info) \<and> number_ok (mtimeMs ?info')"
    unfolding rel by (simp add: env_hash_def number_ok_def)
  note T = getSourceFileHash_mtime[of fs_hash "''src''" "''data/items.csv''"
      defaultInterpreters loader_hash ?env, THEN conjunct1, rule_format, OF a,
      THEN conjunct1, rule_format, OF b]
  have s: "String ?m = ''1000.499''" "String ?m' = ''1000.5''"
    by code_simp+
  from T[THEN conjunct1]
  have first: "getSourceFileHash ?env fs_hash defaultInterpreters ''src'' ''data/items.csv''
      = Inr ''sha256:c0ffee1000.499''"
    by (simp add: s env_hash_def)
  from T[THEN conjunct2, rule_format, OF c, THEN conjunct1]
  have second: "getSourceFileHash ?env' fs_hash defaultInterpreters ''src'' ''data/items.csv''
      = Inr ''sha256:c0ffee1000.5''"
    by (simp add: s env_hash_def)
  from a first second show ?thesis by simp
qed
end
